theory Spec2Isabelle
  imports Main "HOL-Library.Word"
begin

unbundle bit_operations_syntax

section \<open>Memory\<close>

text \<open>
  The allocator of \<^verbatim>\<open>mm.c\<close> works on raw addresses. A pointer and a \<^verbatim>\<open>size_t\<close> are
  64-bit words (arithmetic wraps), memory is a map from addresses to bytes, and a
  \<^verbatim>\<open>size_t\<close> or pointer access \<^verbatim>\<open>*(size_t*)ptr\<close> reads or writes eight bytes, least
  significant byte first. A C \<^verbatim>\<open>int\<close> (the flags and the list index) is an \<open>int\<close>: its
  values stay between 0 and 15.
\<close>

type_synonym ptr = "64 word"
type_synonym size_t = "64 word"
type_synonym memory = "64 word \<Rightarrow> 8 word"

definition read64 :: "memory \<Rightarrow> ptr \<Rightarrow> 64 word" where
  "read64 m p =
     ucast (m p) OR push_bit 8 (ucast (m (p + 1))) OR push_bit 16 (ucast (m (p + 2)))
     OR push_bit 24 (ucast (m (p + 3))) OR push_bit 32 (ucast (m (p + 4)))
     OR push_bit 40 (ucast (m (p + 5))) OR push_bit 48 (ucast (m (p + 6)))
     OR push_bit 56 (ucast (m (p + 7)))"

definition write64 :: "memory \<Rightarrow> ptr \<Rightarrow> 64 word \<Rightarrow> memory" where
  "write64 m p v =
     m(p := ucast v, p + 1 := ucast (drop_bit 8 v), p + 2 := ucast (drop_bit 16 v),
       p + 3 := ucast (drop_bit 24 v), p + 4 := ucast (drop_bit 32 v),
       p + 5 := ucast (drop_bit 40 v), p + 6 := ucast (drop_bit 48 v),
       p + 7 := ucast (drop_bit 56 v))"

text \<open>
  The bytes \<^verbatim>\<open>memcpy\<close> and \<^verbatim>\<open>memset\<close> leave behind: the \<open>n\<close> bytes from \<open>dst\<close> on are
  replaced, every other byte is kept.
\<close>

definition copy_bytes :: "memory \<Rightarrow> ptr \<Rightarrow> ptr \<Rightarrow> size_t \<Rightarrow> memory" where
  "copy_bytes m dst src n = (\<lambda>a. if a - dst < n then m (src + (a - dst)) else m a)"

definition fill_bytes :: "memory \<Rightarrow> ptr \<Rightarrow> 8 word \<Rightarrow> size_t \<Rightarrow> memory" where
  "fill_bytes m dst c n = (\<lambda>a. if a - dst < n then c else m a)"

text \<open>
  The C library's \<^verbatim>\<open>memcpy\<close> and \<^verbatim>\<open>memset\<close>. Moving bytes through the null pointer is
  undefined behaviour, and on the machine the access faults: the call does not return,
  which is the result \<open>None\<close>. Between other addresses the call returns the new memory.
\<close>

definition memcpy :: "memory \<Rightarrow> ptr \<Rightarrow> ptr \<Rightarrow> size_t \<Rightarrow> memory option" where
  "memcpy m dst src n =
     (if n \<noteq> 0 \<and> (dst = 0 \<or> src = 0) then None else Some (copy_bytes m dst src n))"

definition memset :: "memory \<Rightarrow> ptr \<Rightarrow> 8 word \<Rightarrow> size_t \<Rightarrow> memory option" where
  "memset m dst c n =
     (if n \<noteq> 0 \<and> dst = 0 then None else Some (fill_bytes m dst c n))"

section \<open>The allocator's state and the heap provider\<close>

text \<open>
  The state is the memory, the sixteen list heads \<^verbatim>\<open>head[maxindex]\<close>, and the heap
  provider's region: its low end, its break (one past the last valid byte) and the
  address the break cannot pass.
\<close>

record state =
  mem :: memory
  head :: "ptr list"
  heap_lo :: ptr
  heap_brk :: ptr
  heap_max :: ptr

text \<open>
  Modelled from the spec: the heap provider (\<^verbatim>\<open>memlib\<close>: \<^verbatim>\<open>mm_sbrk\<close>, \<^verbatim>\<open>mm_heap_lo\<close>,
  \<^verbatim>\<open>mm_heap_hi\<close>) is not among the sources. \<^verbatim>\<open>sbrk(delta)\<close> extends the region by
  exactly \<open>delta\<close> bytes and returns the base of the new segment, or misses (the null
  pointer, which is what \<^verbatim>\<open>mm.c\<close> tests for); \<^verbatim>\<open>heap_lo\<close> is the inclusive low bound
  and \<^verbatim>\<open>heap_hi\<close> the address of the last valid byte. The provider misses when the
  extension would pass \<open>heap_max\<close>.
\<close>

definition mm_heap_lo :: "state \<Rightarrow> ptr" where
  "mm_heap_lo s = heap_lo s"

definition mm_heap_hi :: "state \<Rightarrow> ptr" where
  "mm_heap_hi s = heap_brk s - 1"

definition mm_sbrk :: "state \<Rightarrow> size_t \<Rightarrow> ptr \<times> state" where
  "mm_sbrk s delta =
     (if unat (heap_brk s) + unat delta \<le> unat (heap_max s)
      then (heap_brk s, s\<lparr>heap_brk := heap_brk s + delta\<rparr>)
      else (0, s))"

section \<open>The code of mm.c\<close>

subsection \<open>Size classes, alignment, pointer steps\<close>

definition head_init :: "state \<Rightarrow> state" where
  "head_init s = s\<lparr>head := fold (\<lambda>index h. h[index := 0]) [0..<16] (head s)\<rparr>"

definition get_index :: "size_t \<Rightarrow> int" where
  "get_index sz =
     (if sz \<le> 32 then 0
      else if sz \<le> 48 then 1
      else if sz \<le> 64 then 2
      else if sz \<le> 96 then 3
      else if sz \<le> 128 then 4
      else if sz \<le> 256 then 5
      else if sz \<le> 512 then 6
      else if sz \<le> 1024 then 7
      else if sz \<le> 2048 then 8
      else if sz \<le> 4096 then 9
      else if sz \<le> 8192 then 10
      else if sz \<le> 16384 then 11
      else if sz \<le> 65536 then 12
      else if sz \<le> 131072 then 13
      else if sz \<le> 262144 then 14
      else 15)"

definition align :: "size_t \<Rightarrow> size_t" where
  "align x = 16 * ((x + 16 - 1) div 16)"

definition aligned :: "ptr \<Rightarrow> bool" where
  "aligned p = (align p = p)"

definition incr :: "ptr \<Rightarrow> size_t \<Rightarrow> ptr" where
  "incr p sz = p + sz"

definition decr :: "ptr \<Rightarrow> size_t \<Rightarrow> ptr" where
  "decr p sz = p - sz"

subsection \<open>Header and footer words\<close>

definition get_size :: "memory \<Rightarrow> ptr \<Rightarrow> size_t" where
  "get_size m p = read64 m p AND NOT 0xf"

definition get_f :: "memory \<Rightarrow> ptr \<Rightarrow> ptr" where
  "get_f m p = incr p (get_size m p - 8)"

definition get_h :: "memory \<Rightarrow> ptr \<Rightarrow> ptr" where
  "get_h m p = decr p (get_size m p - 8)"

definition get_prev_alloc :: "memory \<Rightarrow> ptr \<Rightarrow> int" where
  "get_prev_alloc m p = uint (drop_bit 1 (read64 m p) AND 1)"

text \<open>
  \<^verbatim>\<open>free_prev_alloc\<close> and \<^verbatim>\<open>set_prev_alloc\<close> store the changed word and return it.
\<close>

definition free_prev_alloc :: "memory \<Rightarrow> ptr \<Rightarrow> size_t \<times> memory" where
  "free_prev_alloc m p = (let s = read64 m p AND NOT 0x2 in (s, write64 m p s))"

definition set_prev_alloc :: "memory \<Rightarrow> ptr \<Rightarrow> size_t \<times> memory" where
  "set_prev_alloc m p = (let s = read64 m p OR 0x2 in (s, write64 m p s))"

text \<open>
  The \<^verbatim>\<open>make_\<close> functions return the pointer they were given; the model returns the
  memory they leave.
\<close>

definition make_h :: "memory \<Rightarrow> ptr \<Rightarrow> size_t \<Rightarrow> int \<Rightarrow> int \<Rightarrow> memory" where
  "make_h m p sz prev_alloc alloc =
     write64 m p (sz OR word_of_int alloc OR word_of_int (push_bit 1 prev_alloc))"

definition make_f :: "memory \<Rightarrow> ptr \<Rightarrow> size_t \<Rightarrow> int \<Rightarrow> memory" where
  "make_f m p sz alloc = write64 m p (sz OR word_of_int alloc)"

definition make_hf :: "memory \<Rightarrow> ptr \<Rightarrow> size_t \<Rightarrow> int \<Rightarrow> int \<Rightarrow> memory" where
  "make_hf m p sz prev_alloc alloc =
     (let m1 = make_h m p sz prev_alloc alloc in make_f m1 (get_f m1 p) sz alloc)"

definition make_epi :: "memory \<Rightarrow> ptr \<Rightarrow> memory" where
  "make_epi m p = make_h m p 0 1 1"

definition free_h :: "memory \<Rightarrow> ptr \<Rightarrow> memory" where
  "free_h m p = write64 m p (read64 m p AND NOT 0x1)"

definition is_alloc :: "memory \<Rightarrow> ptr \<Rightarrow> int" where
  "is_alloc m p = uint (read64 m p mod 2)"

definition n2h :: "ptr \<Rightarrow> ptr" where
  "n2h p = decr p 8"

definition h2n :: "ptr \<Rightarrow> ptr" where
  "h2n p = incr p 8"

subsection \<open>The free lists\<close>

text \<open>
  \<^verbatim>\<open>struct node { Node prev, next; }\<close>: \<open>prev\<close> is the first word of a node, \<open>next\<close> the
  second.
\<close>

definition node_prev :: "memory \<Rightarrow> ptr \<Rightarrow> ptr" where
  "node_prev m x = read64 m x"

definition node_next :: "memory \<Rightarrow> ptr \<Rightarrow> ptr" where
  "node_next m x = read64 m (x + 8)"

definition set_node_prev :: "memory \<Rightarrow> ptr \<Rightarrow> ptr \<Rightarrow> memory" where
  "set_node_prev m x v = write64 m x v"

definition set_node_next :: "memory \<Rightarrow> ptr \<Rightarrow> ptr \<Rightarrow> memory" where
  "set_node_next m x v = write64 m (x + 8) v"

definition addnode :: "state \<Rightarrow> ptr \<Rightarrow> state" where
  "addnode s newnode =
     (let sz = get_size (mem s) (n2h newnode);
          index = get_index sz
      in if head s ! nat index = 0 then
           (let s1 = s\<lparr>head := (head s)[nat index := newnode]\<rparr>;
                m1 = set_node_prev (mem s1) newnode newnode;
                m2 = set_node_next m1 newnode newnode
            in s1\<lparr>mem := m2\<rparr>)
         else
           (let first = head s ! nat index;
                m1 = set_node_prev (mem s) newnode (node_prev (mem s) first);
                m2 = set_node_next m1 newnode first;
                m3 = set_node_next m2 (node_prev m2 first) newnode;
                m4 = set_node_prev m3 first newnode
            in s\<lparr>mem := m4\<rparr>))"

definition removenode :: "state \<Rightarrow> ptr \<Rightarrow> int \<Rightarrow> state" where
  "removenode s freeblock index =
     (if freeblock = node_next (mem s) freeblock \<and> head s ! nat index = freeblock then
        s\<lparr>head := (head s)[nat index := 0]\<rparr>
      else
        (let s1 = (if head s ! nat index = freeblock
                   then s\<lparr>head := (head s)[nat index := node_next (mem s) freeblock]\<rparr>
                   else s);
             m1 = set_node_next (mem s1) (node_prev (mem s1) freeblock)
                    (node_next (mem s1) freeblock);
             m2 = set_node_prev m1 (node_next m1 freeblock) (node_prev m1 freeblock)
         in s1\<lparr>mem := m2\<rparr>))"

subsection \<open>Release and coalesce\<close>

definition free_hf :: "state \<Rightarrow> ptr \<Rightarrow> ptr \<times> state" where
  "free_hf s ptr =
     (let prev_footer = decr ptr 8;
          next_header = incr (get_f (mem s) ptr) 8;
          prev = get_prev_alloc (mem s) ptr;
          next = is_alloc (mem s) next_header;
          curr_size = get_size (mem s) ptr;
          prev_size = get_size (mem s) prev_footer;
          next_size = get_size (mem s) next_header;
          prev_index = get_index prev_size;
          next_index = get_index next_size;
          (ptr', s') =
            (if prev = 0 \<and> next = 0 then
               (let prev_header = get_h (mem s) prev_footer;
                    prev_node = h2n prev_header;
                    next_node = h2n next_header;
                    s1 = removenode s prev_node prev_index;
                    s2 = removenode s1 next_node next_index;
                    sz = curr_size + prev_size + next_size;
                    m3 = make_h (mem s2) prev_header sz (get_prev_alloc (mem s2) prev_header) 0;
                    m4 = make_f m3 (get_f m3 next_header) sz 0
                in (get_h m4 prev_footer, s2\<lparr>mem := m4\<rparr>))
             else if prev = 0 \<and> next = 1 then
               (let prev_node = h2n (get_h (mem s) prev_footer);
                    s1 = removenode s prev_node prev_index;
                    sz = curr_size + prev_size;
                    m2 = make_h (mem s1) (get_h (mem s1) prev_footer) sz
                           (get_prev_alloc (mem s1) (get_h (mem s1) prev_footer)) 0;
                    m3 = make_f m2 (get_f m2 ptr) sz 0;
                    m4 = snd (free_prev_alloc m3 next_header)
                in (get_h m4 prev_footer, s1\<lparr>mem := m4\<rparr>))
             else if prev = 1 \<and> next = 0 then
               (let next_node = h2n next_header;
                    s1 = removenode s next_node next_index;
                    sz = curr_size + next_size;
                    m2 = make_h (mem s1) ptr sz 1 0;
                    m3 = make_f m2 (get_f m2 next_header) sz 0
                in (ptr, s1\<lparr>mem := m3\<rparr>))
             else
               (let sz = curr_size + word_of_int (0 * next_index)
                             + word_of_int (0 * prev_index * next * prev);
                    m1 = make_h (mem s) ptr sz 1 0;
                    m2 = make_f m1 (get_f m1 ptr) sz 0;
                    m3 = snd (free_prev_alloc m2 (incr (get_f m2 ptr) 8))
                in (ptr, s\<lparr>mem := m3\<rparr>)));
          node = h2n ptr'
      in (node, addnode s' node))"

subsection \<open>Initialisation\<close>

definition mm_init :: "state \<Rightarrow> bool \<times> state" where
  "mm_init s =
     (let (ptr, s1) = mm_sbrk s (align (4 * 8));
          s2 = head_init s1;
          m3 = make_hf (mem s2) (incr ptr 8) (2 * 8) 0 1;
          m4 = make_epi m3 (incr ptr (3 * 8))
      in (ptr \<noteq> 0, s2\<lparr>mem := m4\<rparr>))"

subsection \<open>Placement\<close>

definition allocate :: "state \<Rightarrow> ptr \<Rightarrow> size_t \<Rightarrow> ptr \<times> state" where
  "allocate s ptr block_size =
     (let total_size = get_size (mem s) ptr;
          newblock_size = total_size - block_size
      in if newblock_size \<ge> 4 * 8 then
           (let end_hptr = incr ptr block_size;
                end_fptr = get_f (mem s) ptr;
                m1 = make_h (mem s) ptr block_size (get_prev_alloc (mem s) ptr) 1;
                m2 = make_h m1 end_hptr newblock_size 1 0;
                m3 = make_f m2 end_fptr newblock_size 0
            in (incr ptr 8, addnode (s\<lparr>mem := m3\<rparr>) (h2n end_hptr)))
         else
           (let m1 = make_h (mem s) ptr total_size (get_prev_alloc (mem s) ptr) 1;
                m2 = snd (set_prev_alloc m1 (incr ptr total_size))
            in (incr ptr 8, s\<lparr>mem := m2\<rparr>)))"

text \<open>
  The inner loop of \<^verbatim>\<open>get_freeblock\<close> walks one circular list from its head until it
  is back at the head: it may not return, so not returning is the value \<open>None\<close>. It
  returns the first node whose block is large enough (\<open>Some (Some x)\<close>) or that the list
  has none (\<open>Some None\<close>).
\<close>

partial_function (option) scan_list :: "state \<Rightarrow> int \<Rightarrow> size_t \<Rightarrow> ptr \<Rightarrow> ptr option option" where
  "scan_list s i block_size x =
     (if get_size (mem s) (n2h x) \<ge> block_size then Some (Some x)
      else (let x' = node_next (mem s) x
            in if x' \<noteq> head s ! nat i then scan_list s i block_size x' else Some None))"

function get_freeblock_from :: "state \<Rightarrow> size_t \<Rightarrow> int \<Rightarrow> (ptr \<times> state) option" where
  "get_freeblock_from s block_size i =
     (if i < 16 then
        (if head s ! nat i \<noteq> 0 then
           (case scan_list s i block_size (head s ! nat i) of
              None \<Rightarrow> None
            | Some (Some x) \<Rightarrow> Some (x, removenode s x i)
            | Some None \<Rightarrow> get_freeblock_from s block_size (i + 1))
         else get_freeblock_from s block_size (i + 1))
      else Some (0, s))"
  by pat_completeness auto
termination
  by (relation "measure (\<lambda>(s, block_size, i). nat (16 - i))") auto

definition get_freeblock :: "state \<Rightarrow> size_t \<Rightarrow> (ptr \<times> state) option" where
  "get_freeblock s block_size = get_freeblock_from s block_size (get_index block_size)"

subsection \<open>Heap extension\<close>

definition extend :: "state \<Rightarrow> size_t \<Rightarrow> ptr \<times> state" where
  "extend s block_size =
     (let prev_alloc = get_prev_alloc (mem s) (decr (mm_heap_hi s) (8 - 1));
          (new_ptr, s1) = mm_sbrk s block_size
      in if new_ptr \<noteq> 0 then
           (let m1 = make_h (mem s1) (decr new_ptr 8) block_size prev_alloc 1;
                m2 = make_epi m1 (incr new_ptr (block_size - 8))
            in (new_ptr, s1\<lparr>mem := m2\<rparr>))
         else (new_ptr, s1))"

subsection \<open>The public calls\<close>

definition finder :: "state \<Rightarrow> ptr \<Rightarrow> size_t \<Rightarrow> (ptr \<times> state) option" where
  "finder s ptr block_size =
     (case get_freeblock s block_size of
        None \<Rightarrow> None
      | Some (freeblock, s1) \<Rightarrow>
          if freeblock \<noteq> 0 then Some (allocate s1 (n2h freeblock) block_size)
          else Some (extend s1 block_size))"

text \<open>
  The two statements of \<^verbatim>\<open>malloc\<close> that pad and align the request:
  \<^verbatim>\<open>size=align(size+w); if(size<32) size=32;\<close>
\<close>

definition padded_size :: "size_t \<Rightarrow> size_t" where
  "padded_size sz = (let size1 = align (sz + 8) in if size1 < 32 then 32 else size1)"

definition malloc :: "state \<Rightarrow> size_t \<Rightarrow> (ptr \<times> state) option" where
  "malloc s sz = finder s (incr (mm_heap_lo s) 8) (padded_size sz)"

definition free :: "state \<Rightarrow> ptr \<Rightarrow> state" where
  "free s ptr = (if ptr \<noteq> 0 then snd (free_hf s (n2h ptr)) else s)"

definition realloc :: "state \<Rightarrow> ptr \<Rightarrow> size_t \<Rightarrow> (ptr \<times> state) option" where
  "realloc s oldptr sz =
     (if oldptr = 0 then malloc s sz
      else if sz = 0 then Some (0, free s oldptr)
      else
        (case malloc s sz of
           None \<Rightarrow> None
         | Some (newptr, s1) \<Rightarrow>
             (let oldsize = get_size (mem s1) (decr oldptr 8);
                  minsize = (if sz > oldsize then oldsize else sz)
              in case memcpy (mem s1) newptr oldptr minsize of
                   None \<Rightarrow> None
                 | Some m' \<Rightarrow> Some (newptr, s1\<lparr>mem := m'\<rparr>))))"

definition calloc :: "state \<Rightarrow> size_t \<Rightarrow> size_t \<Rightarrow> (ptr \<times> state) option" where
  "calloc s nmemb sz =
     (let size1 = sz * nmemb in
      case malloc s size1 of
        None \<Rightarrow> None
      | Some (ptr, s1) \<Rightarrow>
          if ptr \<noteq> 0 then
            (case memset (mem s1) ptr 0 size1 of
               None \<Rightarrow> None
             | Some m' \<Rightarrow> Some (ptr, s1\<lparr>mem := m'\<rparr>))
          else Some (ptr, s1))"

section \<open>The specification's notions\<close>

text \<open>
  The size-class table of the data model: the upper bound of each class but the last.
  \<open>first_match\<close> is the position of the first bound a size does not exceed.
\<close>

definition class_bounds :: "nat list" where
  "class_bounds =
     [32, 48, 64, 96, 128, 256, 512, 1024, 2048, 4096, 8192, 16384, 65536, 131072, 262144]"

fun first_match :: "nat list \<Rightarrow> nat \<Rightarrow> nat" where
  "first_match [] n = 0"
| "first_match (b # bs) n = (if n \<le> b then 0 else Suc (first_match bs n))"

text \<open>Rounding up to a multiple of \<open>a\<close>, on unbounded numbers.\<close>

definition align_up :: "nat \<Rightarrow> nat \<Rightarrow> nat" where
  "align_up x a = ((x + a - 1) div a) * a"

text \<open>
  A provider that has handed out nothing yet: an empty region at \<open>0x1000\<close> over zeroed
  memory, with \<open>limit\<close> as the address the break cannot pass.
\<close>

definition fresh_state :: "ptr \<Rightarrow> state" where
  "fresh_state limit =
     \<lparr>mem = (\<lambda>_. 0), head = [0, 0, 0, 0, 0, 0, 0, 0, 0, 0, 0, 0, 0, 0, 0, 0],
      heap_lo = 0x1000, heap_brk = 0x1000, heap_max = limit\<rparr>"

section \<open>The heap as a sequence of blocks\<close>

text \<open>
  The invariants of the specification are stated over addresses as integers, so that
  no sum wraps: \<open>wp a\<close> is the pointer for the address \<open>a\<close>, \<open>rd m a\<close> the word stored
  there, and \<open>hdr sz pa al\<close> the header word of a block of \<open>sz\<close> bytes with the prev-alloc
  bit \<open>pa\<close> and the alloc bit \<open>al\<close>, as \<^verbatim>\<open>make_h\<close> writes it.
\<close>

abbreviation wp :: "int \<Rightarrow> ptr" where
  "wp \<equiv> word_of_int"

definition rd :: "memory \<Rightarrow> int \<Rightarrow> 64 word" where
  "rd m a = read64 m (wp a)"

definition hdr :: "int \<Rightarrow> bool \<Rightarrow> bool \<Rightarrow> 64 word" where
  "hdr sz pa al = wp sz OR (if al then 1 else 0) OR (if pa then 2 else 0)"

text \<open>
  A bit as the \<^verbatim>\<open>int\<close> the code passes around.
\<close>

definition flag :: "bool \<Rightarrow> int" where
  "flag b = (if b then 1 else 0)"

subsection \<open>The free lists as rings\<close>

text \<open>
  \<open>pv\<close> and \<open>nx\<close> read the links of a node. A set of nodes, each with its class, is
  linked well when following a link stays in the set and in the class, and the two links
  are inverse to each other: every class is a union of rings. Each head is null or a node
  of its class.
\<close>

definition pv :: "memory \<Rightarrow> int \<Rightarrow> int" where
  "pv m n = uint (node_prev m (wp n))"

definition nx :: "memory \<Rightarrow> int \<Rightarrow> int" where
  "nx m n = uint (node_next m (wp n))"

definition links_ok :: "memory \<Rightarrow> (int \<times> int) set \<Rightarrow> bool" where
  "links_ok m NS = (\<forall>n c. (n, c) \<in> NS \<longrightarrow>
      (nx m n, c) \<in> NS \<and> (pv m n, c) \<in> NS \<and> pv m (nx m n) = n \<and> nx m (pv m n) = n)"

definition heads_ok :: "ptr list \<Rightarrow> (int \<times> int) set \<Rightarrow> bool" where
  "heads_ok h NS = (length h = 16 \<and> (\<forall>i < 16. h ! i = 0 \<or> (uint (h ! i), int i) \<in> NS))"

definition lists_ok :: "memory \<Rightarrow> ptr list \<Rightarrow> (int \<times> int) set \<Rightarrow> bool" where
  "lists_ok m h NS = (links_ok m NS \<and> heads_ok h NS)"

text \<open>
  The nodes lie in the address space and do not overlap.
\<close>

definition nodes_wf :: "(int \<times> int) set \<Rightarrow> bool" where
  "nodes_wf NS = (\<forall>n c. (n, c) \<in> NS \<longrightarrow>
      0 < n \<and> n + 16 \<le> 2 ^ 64 \<and> 0 \<le> c \<and> c < 16 \<and>
      (\<forall>n' c'. (n', c') \<in> NS \<longrightarrow> (n = n' \<and> c = c') \<or> n + 16 \<le> n' \<or> n' + 16 \<le> n))"

text \<open>
  \<open>frame R m m'\<close>: every word that meets none of the address ranges \<open>R\<close> is the same in
  \<open>m'\<close> as in \<open>m\<close>.
\<close>

definition frame :: "(int \<times> int) set \<Rightarrow> memory \<Rightarrow> memory \<Rightarrow> bool" where
  "frame R m m' = (\<forall>b. 0 \<le> b \<longrightarrow> b + 8 \<le> 2 ^ 64 \<longrightarrow>
      (\<forall>lo hi. (lo, hi) \<in> R \<longrightarrow> b + 8 \<le> lo \<or> hi \<le> b) \<longrightarrow> rd m' b = rd m b)"

definition link_ranges :: "(int \<times> int) set \<Rightarrow> (int \<times> int) set" where
  "link_ranges NS = (\<lambda>(n, c). (n, n + 16)) ` NS"

subsection \<open>Blocks\<close>

text \<open>
  A block is its size and its alloc bit. \<open>blocks_ok m a pa bs\<close>: the blocks \<open>bs\<close> lie
  one after the other from address \<open>a\<close> on, \<open>pa\<close> being the alloc bit of the block before
  \<open>a\<close>. Each size is a multiple of 16 and at least 32; each header carries the size, the
  alloc bit and the alloc bit of the block before; a free block is not next to another
  one and has its size in its footer. \<open>node_set\<close> is the set of the payload addresses of
  the free blocks, each with the class of its size; \<open>inside\<close> holds for the address ranges
  within a payload that hold neither list links nor a footer.
\<close>

type_synonym block = "int \<times> bool"

fun total :: "block list \<Rightarrow> int" where
  "total [] = 0"
| "total ((sz, al) # bs) = sz + total bs"

fun last_alloc :: "bool \<Rightarrow> block list \<Rightarrow> bool" where
  "last_alloc pa [] = pa"
| "last_alloc pa ((sz, al) # bs) = last_alloc al bs"

fun blocks_ok :: "memory \<Rightarrow> int \<Rightarrow> bool \<Rightarrow> block list \<Rightarrow> bool" where
  "blocks_ok m a pa [] = True"
| "blocks_ok m a pa ((sz, al) # bs) =
     (16 dvd sz \<and> 32 \<le> sz \<and> rd m a = hdr sz pa al \<and> (pa \<or> al)
      \<and> (al \<or> rd m (a + sz - 8) = wp sz) \<and> blocks_ok m (a + sz) al bs)"

fun node_set :: "int \<Rightarrow> block list \<Rightarrow> (int \<times> int) set" where
  "node_set a [] = {}"
| "node_set a ((sz, al) # bs) =
     (if al then {} else {(a + 8, get_index (wp sz))}) \<union> node_set (a + sz) bs"

fun inside :: "int \<Rightarrow> block list \<Rightarrow> int \<Rightarrow> int \<Rightarrow> bool" where
  "inside a [] lo hi = False"
| "inside a ((sz, al) # bs) lo hi =
     ((a + 8 \<le> lo \<and> hi \<le> a + sz - (if al then 0 else 8)) \<or> inside (a + sz) bs lo hi)"

subsection \<open>The invariant\<close>

text \<open>
  The heap satisfies the invariant with the blocks \<open>bs\<close> when the region is the padding
  word, the prologue (header \<open>0x11\<close>), the blocks, and the epilogue (size 0, allocated, with
  the alloc bit of the last block), up to the break; and when the nodes of the free lists
  are the free blocks, each in the list of its class. \<open>heap_rep\<close> leaves open which nodes
  are listed, for the states in the middle of a call.
\<close>

definition first_block :: "state \<Rightarrow> int" where
  "first_block s = uint (heap_lo s) + 24"

definition heap_rep :: "state \<Rightarrow> block list \<Rightarrow> (int \<times> int) set \<Rightarrow> bool" where
  "heap_rep s bs NS =
     (uint (heap_brk s) = first_block s + total bs + 8
      \<and> rd (mem s) (first_block s - 16) = 17
      \<and> blocks_ok (mem s) (first_block s) True bs
      \<and> rd (mem s) (first_block s + total bs) = hdr 0 (last_alloc True bs) True
      \<and> links_ok (mem s) NS \<and> heads_ok (head s) NS)"

definition heap_ok :: "state \<Rightarrow> block list \<Rightarrow> bool" where
  "heap_ok s bs = heap_rep s bs (node_set (first_block s) bs)"


text \<open>
  The word that follows a run of blocks: the header of the next block, or the epilogue.
\<close>

fun next_word :: "block list \<Rightarrow> bool \<Rightarrow> 64 word" where
  "next_word [] pa = hdr 0 pa True"
| "next_word ((sz, al) # bs) pa = hdr sz pa al"

fun next_alloc :: "block list \<Rightarrow> bool" where
  "next_alloc [] = True"
| "next_alloc ((sz, al) # bs) = al"

fun next_size :: "block list \<Rightarrow> int" where
  "next_size [] = 0"
| "next_size ((sz, al) # bs) = sz"

definition tail_ok :: "memory \<Rightarrow> int \<Rightarrow> bool \<Rightarrow> block list \<Rightarrow> bool" where
  "tail_ok m a pa bs = (blocks_ok m a pa bs \<and> rd m (a + total bs) = hdr 0 (last_alloc pa bs) True)"

subsection \<open>Adjacent free blocks\<close>



subsection \<open>An example heap\<close>

text \<open>
  A heap of four blocks after the prologue at \<open>0x1008\<close>: 48 bytes allocated at \<open>0x1018\<close>
  (with the word \<open>0x22\<close> in its payload, at \<open>0x1038\<close>), 32 bytes free at \<open>0x1048\<close>, 32 bytes
  allocated at \<open>0x1068\<close>, 64 bytes free at \<open>0x1088\<close>, and the epilogue at \<open>0x10c8\<close>. The two
  free blocks are alone in the lists of the classes 0 and 2.
\<close>

definition demo_mem :: memory where
  "demo_mem =
     write64 (write64 (write64 (write64 (write64 (write64 (write64 (write64 (write64 (write64
     (write64 (write64 (write64 (write64 (\<lambda>_. 0)
       0x1008 0x11) 0x1010 0x11)
       0x1018 0x33) 0x1038 0x22)
       0x1048 0x22) 0x1050 0x1050) 0x1058 0x1050) 0x1060 0x20)
       0x1068 0x21)
       0x1088 0x42) 0x1090 0x1090) 0x1098 0x1090) 0x10c0 0x40)
       0x10c8 0x1"

definition demo_heap :: state where
  "demo_heap =
     \<lparr>mem = demo_mem, head = [0x1050, 0, 0x1090, 0, 0, 0, 0, 0, 0, 0, 0, 0, 0, 0, 0, 0],
      heap_lo = 0x1000, heap_brk = 0x10d0, heap_max = 0x2000\<rparr>"

definition demo_blocks :: "block list" where
  "demo_blocks = [(48, True), (32, False), (32, True), (64, False)]"

section \<open>Size classes\<close>

lemma first_match_mono: "a \<le> b \<Longrightarrow> first_match bs a \<le> first_match bs b"
  by (induction bs) auto

lemma first_match_le_length: "first_match bs n \<le> length bs"
  by (induction bs) auto

lemma get_index_first_match: "get_index a = int (first_match class_bounds (unat a))"
  by (simp add: get_index_def class_bounds_def word_le_nat_alt)

text \<open>
  C8. \<^verbatim>\<open>get_index\<close> is the first match against the sixteen-entry step table, its
  result lies between 0 and 15, and it is monotone in the size.
\<close>

theorem get_index_table_monotone:
  "get_index a = int (first_match class_bounds (unat a))
   \<and> 0 \<le> get_index a \<and> get_index a \<le> 15
   \<and> (a \<le> b \<longrightarrow> get_index a \<le> get_index b)"
proof -
  have "first_match class_bounds (unat a) \<le> length class_bounds"
    by (rule first_match_le_length)
  then have "get_index a \<le> 15"
    by (simp add: get_index_first_match class_bounds_def)
  moreover have "get_index a \<le> get_index b" if "a \<le> b"
    using that first_match_mono [of "unat a" "unat b" class_bounds]
    by (simp add: get_index_first_match word_le_nat_alt)
  ultimately show ?thesis
    by (simp add: get_index_first_match)
qed

theorem get_index_table_monotone_witness:
  "(40 :: size_t) \<le> 5000 \<and> get_index 40 = 1 \<and> get_index 5000 = 10
   \<and> get_index 40 \<le> get_index 5000"
  using get_index_table_monotone [of 40 5000]
  by (simp add: get_index_def)

section \<open>Reading and writing words\<close>

lemma take_bit_split:
  "take_bit (a + b) (v :: 64 word) = take_bit a v OR push_bit a (take_bit b (drop_bit a v))"
  by (rule bit_word_eqI) (auto simp: bit_simps)

lemma ucast_byte: "(ucast (ucast (x :: 64 word) :: 8 word) :: 64 word) = take_bit 8 x"
  by (rule bit_word_eqI) (auto simp: bit_simps)

lemma bytes_join:
  "ucast (ucast v :: 8 word) OR push_bit 8 (ucast (ucast (drop_bit 8 v) :: 8 word))
   OR push_bit 16 (ucast (ucast (drop_bit 16 v) :: 8 word))
   OR push_bit 24 (ucast (ucast (drop_bit 24 v) :: 8 word))
   OR push_bit 32 (ucast (ucast (drop_bit 32 v) :: 8 word))
   OR push_bit 40 (ucast (ucast (drop_bit 40 v) :: 8 word))
   OR push_bit 48 (ucast (ucast (drop_bit 48 v) :: 8 word))
   OR push_bit 56 (ucast (ucast (drop_bit 56 v) :: 8 word)) = (v :: 64 word)"
proof -
  have "take_bit LENGTH(64) v = v" by (rule take_bit_length_eq)
  then have "v = take_bit (8 + 8 + 8 + 8 + 8 + 8 + 8 + 8) v" by simp
  also have "\<dots> = take_bit 8 v OR push_bit 8 (take_bit 8 (drop_bit 8 v))
   OR push_bit 16 (take_bit 8 (drop_bit 16 v))
   OR push_bit 24 (take_bit 8 (drop_bit 24 v))
   OR push_bit 32 (take_bit 8 (drop_bit 32 v))
   OR push_bit 40 (take_bit 8 (drop_bit 40 v))
   OR push_bit 48 (take_bit 8 (drop_bit 48 v))
   OR push_bit 56 (take_bit 8 (drop_bit 56 v))"
    unfolding take_bit_split by (simp add: or.assoc)
  finally show ?thesis unfolding ucast_byte by simp
qed

lemma read64_write64_same: "read64 (write64 m p v) p = v"
  unfolding read64_def write64_def by (simp add: bytes_join)

lemma write64_write64_same: "write64 (write64 m p v) p w = write64 m p w"
  unfolding write64_def by (rule ext) simp

lemma read64_zero: "read64 (\<lambda>_. 0) p = 0"
  by (simp add: read64_def)

lemma uint_sub_cases:
  fixes x y :: "64 word"
  shows "uint (x - y) = (if uint y \<le> uint x then uint x - uint y else uint x - uint y + 2 ^ 64)"
  using uint_sub_if'[of x y] by simp

lemma uint_add_cases:
  fixes x y :: "64 word"
  shows "uint (x + y) =
    (if uint x + uint y < 2 ^ 64 then uint x + uint y else uint x + uint y - 2 ^ 64)"
  using uint_plus_if'[of x y] by simp

lemma write64_other: "8 \<le> x - p \<Longrightarrow> write64 m p v x = m x"
  by (auto simp: write64_def word_le_def)

lemma cell_shift:
  fixes p q j :: "64 word"
  assumes "8 \<le> q - p" "8 \<le> p - q" "j < 8"
  shows "8 \<le> q + j - p"
  using assms uint_lt2p[of p] uint_lt2p[of q] uint_ge_0[of p] uint_ge_0[of q] uint_ge_0[of j]
  unfolding word_le_def word_less_def uint_sub_cases uint_add_cases
  by (simp split: if_splits; linarith)

text \<open>Two words whose eight bytes do not overlap: a store to one leaves the other.\<close>

lemma read64_write64_disj:
  assumes "8 \<le> q - p" "8 \<le> p - q"
  shows "read64 (write64 m p v) q = read64 m q"
proof -
  have "write64 m p v (q + j) = m (q + j)" if "j < 8" for j
    using cell_shift[OF assms that] by (rule write64_other)
  from this[of 0] this[of 1] this[of 2] this[of 3] this[of 4] this[of 5] this[of 6] this[of 7]
  show ?thesis by (simp add: read64_def word_less_def)
qed

lemma copy_bytes_other: "n \<le> x - d \<Longrightarrow> copy_bytes m d s n x = m x"
  using leD by (auto simp: copy_bytes_def)

lemma fill_bytes_other: "n \<le> x - d \<Longrightarrow> fill_bytes m d c n x = m x"
  using leD by (auto simp: fill_bytes_def)

lemma range_shift:
  fixes q d n j :: "64 word"
  assumes "n \<le> q - d" "8 \<le> d - q" "j < 8"
  shows "n \<le> q + j - d"
  using assms uint_lt2p[of d] uint_lt2p[of q] uint_ge_0[of d] uint_ge_0[of q] uint_ge_0[of j]
  unfolding word_le_def word_less_def uint_sub_cases uint_add_cases
  by (simp split: if_splits; linarith)

lemma read64_copy_out:
  assumes "n \<le> q - d" "8 \<le> d - q"
  shows "read64 (copy_bytes m d s n) q = read64 m q"
proof -
  have "copy_bytes m d s n (q + j) = m (q + j)" if "j < 8" for j
    using range_shift[OF assms that] by (rule copy_bytes_other)
  from this[of 0] this[of 1] this[of 2] this[of 3] this[of 4] this[of 5] this[of 6] this[of 7]
  show ?thesis by (simp add: read64_def word_less_def)
qed

lemma read64_fill_out:
  assumes "n \<le> q - d" "8 \<le> d - q"
  shows "read64 (fill_bytes m d c n) q = read64 m q"
proof -
  have "fill_bytes m d c n (q + j) = m (q + j)" if "j < 8" for j
    using range_shift[OF assms that] by (rule fill_bytes_other)
  from this[of 0] this[of 1] this[of 2] this[of 3] this[of 4] this[of 5] this[of 6] this[of 7]
  show ?thesis by (simp add: read64_def word_less_def)
qed

lemma range_in:
  fixes q d n j :: "64 word"
  assumes "q - d \<le> n - 8" "8 \<le> n" "j < 8"
  shows "q + j - d < n"
  using assms uint_lt2p[of d] uint_lt2p[of q] uint_ge_0[of d] uint_ge_0[of q] uint_ge_0[of j]
    uint_lt2p[of n]
  unfolding word_le_def word_less_def uint_sub_cases uint_add_cases
  by (simp split: if_splits; linarith)

lemma read64_copy_in:
  assumes "q - d \<le> n - 8" "8 \<le> n"
  shows "read64 (copy_bytes m d s n) q = read64 m (s + (q - d))"
proof -
  have "copy_bytes m d s n (q + j) = m (s + (q - d) + j)" if "j < 8" for j
    using range_in[OF assms that] by (simp add: copy_bytes_def algebra_simps)
  from this[of 0] this[of 1] this[of 2] this[of 3] this[of 4] this[of 5] this[of 6] this[of 7]
  show ?thesis by (simp add: read64_def word_less_def)
qed

lemma read64_fill_zero:
  assumes "q - d \<le> n - 8" "8 \<le> n"
  shows "read64 (fill_bytes m d 0 n) q = 0"
proof -
  have "fill_bytes m d 0 n (q + j) = 0" if "j < 8" for j
    using range_in[OF assms that] by (simp add: fill_bytes_def)
  from this[of 0] this[of 1] this[of 2] this[of 3] this[of 4] this[of 5] this[of 6] this[of 7]
  show ?thesis by (simp add: read64_def word_less_def)
qed

text \<open>The equations that run the code on a concrete state.\<close>

lemmas run_simps =
  mm_init_def mm_sbrk_def head_init_def make_hf_def make_h_def make_f_def make_epi_def
  get_f_def get_h_def get_size_def incr_def decr_def align_def Let_def
  malloc_def finder_def get_freeblock_def padded_size_def get_index_def extend_def
  mm_heap_hi_def mm_heap_lo_def get_prev_alloc_def is_alloc_def allocate_def addnode_def
  removenode_def n2h_def h2n_def node_prev_def node_next_def set_node_prev_def
  set_node_next_def free_def free_hf_def realloc_def calloc_def set_prev_alloc_def
  free_prev_alloc_def scan_list.simps upt_rec
  memcpy_def memset_def
  read64_write64_same read64_write64_disj read64_zero read64_copy_out read64_copy_in
  read64_fill_out read64_fill_zero

section \<open>Header bits\<close>

lemma bit_and_not15: "bit (x AND NOT 0xf :: 64 word) n \<longleftrightarrow> bit x n \<and> 4 \<le> n"
proof -
  have "x AND NOT 0xf = x AND NOT (mask 4)" by (simp add: mask_eq_exp_minus_1)
  then show ?thesis by (auto simp: bit_simps dest: bit_imp_le_length)
qed

lemma bit_or2: "bit (x OR 0x2 :: 64 word) n \<longleftrightarrow> bit x n \<or> n = 1"
proof -
  have "x OR 0x2 = x OR push_bit 1 1" by simp
  then show ?thesis by (auto simp: bit_simps)
qed

lemma bit_and_not2: "bit (x AND NOT 0x2 :: 64 word) n \<longleftrightarrow> bit x n \<and> n \<noteq> 1"
proof -
  have "x AND NOT 0x2 = x AND NOT (push_bit 1 1)" by simp
  then show ?thesis by (auto simp: bit_simps dest: bit_imp_le_length)
qed

lemma uint_mod2: "uint ((x :: 64 word) mod 2) = (if bit x 0 then 1 else 0)"
  by (simp add: mod_2_eq_odd bit_0)

lemma uint_bit1: "uint (drop_bit 1 (x :: 64 word) AND 1) = (if bit x 1 then 1 else 0)"
  by (simp add: and_one_eq mod_2_eq_odd bit_iff_odd_drop_bit)

lemma get_size_set_bit: "(x OR 0x2) AND NOT 0xf = (x :: 64 word) AND NOT 0xf"
  by (rule bit_word_eqI) (auto simp only: bit_and_not15 bit_or2)

lemma get_size_clear_bit: "(x AND NOT 0x2) AND NOT 0xf = (x :: 64 word) AND NOT 0xf"
  by (rule bit_word_eqI) (auto simp only: bit_and_not15 bit_and_not2)

lemma drop4_set_bit: "drop_bit 4 (x OR 0x2) = drop_bit 4 (x :: 64 word)"
  by (rule bit_word_eqI) (simp only: bit_drop_bit_eq comp_def bit_or2, simp)

lemma drop4_clear_bit: "drop_bit 4 (x AND NOT 0x2) = drop_bit 4 (x :: 64 word)"
  by (rule bit_word_eqI) (simp only: bit_drop_bit_eq comp_def bit_and_not2, simp)

lemma set_bit_idem: "(x OR 0x2) OR 0x2 = (x :: 64 word) OR 0x2"
  by (rule bit_word_eqI) (auto simp only: bit_or2)

lemma clear_bit_idem: "(x AND NOT 0x2) AND NOT 0x2 = (x :: 64 word) AND NOT 0x2"
  by (rule bit_word_eqI) (auto simp only: bit_and_not2)

text \<open>
  C9. \<^verbatim>\<open>set_prev_alloc\<close> and \<^verbatim>\<open>free_prev_alloc\<close> are idempotent: applied a second time
  they return the same word and leave the same memory as the first time. Each keeps the
  size bits of the word (bits 4 and above, what \<^verbatim>\<open>get_size\<close> reads) and its alloc bit
  (bit 0, what \<^verbatim>\<open>is_alloc\<close> reads).
\<close>

theorem prev_alloc_bit_idempotent:
  "(let (w1, m1) = set_prev_alloc m p; (w2, m2) = set_prev_alloc m1 p
    in w2 = w1 \<and> m2 = m1 \<and> get_size m1 p = get_size m p \<and> is_alloc m1 p = is_alloc m p
       \<and> drop_bit 4 w1 = drop_bit 4 (read64 m p) \<and> bit w1 0 = bit (read64 m p) 0)
   \<and> (let (w1, m1) = free_prev_alloc m p; (w2, m2) = free_prev_alloc m1 p
    in w2 = w1 \<and> m2 = m1 \<and> get_size m1 p = get_size m p \<and> is_alloc m1 p = is_alloc m p
       \<and> drop_bit 4 w1 = drop_bit 4 (read64 m p) \<and> bit w1 0 = bit (read64 m p) 0)"
  unfolding set_prev_alloc_def free_prev_alloc_def Let_def prod.case get_size_def is_alloc_def
    read64_write64_same write64_write64_same uint_mod2 get_size_set_bit get_size_clear_bit
    drop4_set_bit drop4_clear_bit set_bit_idem clear_bit_idem bit_or2 bit_and_not2
  by simp

section \<open>Normalising the request\<close>

lemma unat_align:
  assumes "unat x + 15 < 2 ^ 64"
  shows "unat (align x) = align_up (unat x) 16"
proof -
  have e: "x + 16 - 1 = x + 15" by simp
  have "unat (x + 15) = (unat x + unat (15 :: 64 word)) mod 2 ^ LENGTH(64)"
    by (rule unat_word_ariths)
  then have a: "unat (x + 15) = unat x + 15"
    using assms by simp
  have b: "unat ((x + 15) div 16) = (unat x + 15) div 16"
    by (simp add: unat_div a)
  have "16 * ((unat x + 15) div 16) \<le> unat x + 15" by simp
  then have c: "16 * ((unat x + 15) div 16) < 2 ^ 64" using assms by linarith
  have "unat (16 * ((x + 15) div 16))
      = (unat (16 :: 64 word) * unat ((x + 15) div 16)) mod 2 ^ LENGTH(64)"
    by (rule unat_word_ariths)
  then have "unat (16 * ((x + 15) div 16)) = 16 * ((unat x + 15) div 16)"
    using c by (simp add: b)
  then show ?thesis unfolding align_def e align_up_def by (simp add: mult.commute)
qed

lemma padded_size_unat:
  assumes "unat n \<le> 2 ^ 64 - 24"
  shows "unat (padded_size n) = max 32 (align_up (unat n + 8) 16)"
proof -
  have "unat (n + 8) = (unat n + unat (8 :: 64 word)) mod 2 ^ LENGTH(64)"
    by (rule unat_word_ariths)
  then have a: "unat (n + 8) = unat n + 8"
    using assms by simp
  have "unat (align (n + 8)) = align_up (unat n + 8) 16"
    using assms by (simp add: unat_align a)
  then show ?thesis
    by (auto simp: padded_size_def Let_def word_less_nat_alt max_def)
qed

text \<open>
  C7, as the code has it. \<^verbatim>\<open>malloc\<close> searches for \<open>padded_size n\<close> bytes. For a request
  of at most \<open>2^64 - 24\<close> bytes that is \<open>max(32, align_up(n + 8, 16))\<close>; the arithmetic is
  \<^verbatim>\<open>size_t\<close> arithmetic, so for the 23 largest requests the sum or the rounding wraps
  around.
\<close>

theorem malloc_normalizes:
  "unat n \<le> 2 ^ 64 - 24 \<Longrightarrow>
     malloc s n = finder s (incr (mm_heap_lo s) 8) (padded_size n)
     \<and> unat (padded_size n) = max 32 (align_up (unat n + 8) 16)"
  by (simp add: malloc_def padded_size_unat)

theorem malloc_normalizes_witness:
  "unat (100 :: size_t) \<le> 2 ^ 64 - 24
   \<and> malloc (fresh_state 0x2000) 100 = finder (fresh_state 0x2000) 0x1008 (padded_size 100)
   \<and> unat (padded_size 100) = 112 \<and> max 32 (align_up (unat (100 :: size_t) + 8) 16) = 112"
  using malloc_normalizes [of 100 "fresh_state 0x2000"]
  by (simp add: align_up_def incr_def mm_heap_lo_def fresh_state_def)

text \<open>
  The claim as stated, for every request size, fails at \<open>n = 2^64 - 23\<close>: the code
  searches for 32 bytes, and \<open>max(32, align_up(n + 8, 16))\<close> is \<open>2^64\<close>.
\<close>

theorem malloc_normalizes_counterexample:
  "unat (padded_size 18446744073709551593) = 32
   \<and> max 32 (align_up (unat (18446744073709551593 :: size_t) + 8) 16) = 2 ^ 64"
  by (simp add: padded_size_def align_def align_up_def)

section \<open>calloc\<close>

lemma wrapped_product: "(word_of_nat ((unat nmemb * unat sz) mod 2 ^ 64) :: size_t) = sz * nmemb"
proof -
  have "unat nmemb * unat sz mod 2 ^ 64 = unat (nmemb * sz)"
    by (simp add: unat_word_ariths)
  then show ?thesis by (simp add: mult.commute)
qed

text \<open>
  C10. \<^verbatim>\<open>calloc\<close> multiplies in \<^verbatim>\<open>size_t\<close> and tests nothing but the pointer it gets:
  for all arguments the call is \<^verbatim>\<open>malloc\<close> of the product modulo \<open>2^64\<close>, followed, when the
  pointer is not null, by \<^verbatim>\<open>memset\<close> of that many zero bytes. On a run: a fresh heap is
  initialised, \<^verbatim>\<open>p = malloc(24)\<close> takes a 32-byte block and \<^verbatim>\<open>free(p)\<close> releases it, which
  leaves the list links and the footer in its payload. \<^verbatim>\<open>calloc(2^63 + 12, 2)\<close>, whose
  product is \<open>2^64 + 24\<close>, does not miss: it returns that block, whose 24 payload bytes
  (the wrapped product) are now zero, and the heap has not grown.
\<close>

theorem calloc_product_wraps:
  "calloc s nmemb sz =
     (case malloc s (word_of_nat ((unat nmemb * unat sz) mod 2 ^ 64)) of
        None \<Rightarrow> None
      | Some (p, s1) \<Rightarrow>
          if p = 0 then Some (0, s1)
          else (case memset (mem s1) p 0 (word_of_nat ((unat nmemb * unat sz) mod 2 ^ 64)) of
                  None \<Rightarrow> None
                | Some m' \<Rightarrow> Some (p, s1\<lparr>mem := m'\<rparr>)))
   \<and> unat (9223372036854775820 :: size_t) * unat (2 :: size_t) = 2 ^ 64 + 24
   \<and> (case malloc (snd (mm_init (fresh_state 0x2000))) 24 of
        None \<Rightarrow> False
      | Some (p, s2) \<Rightarrow> p = 0x1020 \<and>
          read64 (mem (free s2 p)) p = 0x1020 \<and> read64 (mem (free s2 p)) (p + 8) = 0x1020
          \<and> read64 (mem (free s2 p)) (p + 16) = 32 \<and>
          (case calloc (free s2 p) 9223372036854775820 2 of
             None \<Rightarrow> False
           | Some (q, s4) \<Rightarrow> q = 0x1020 \<and> get_size (mem s4) (n2h q) = 32
               \<and> is_alloc (mem s4) (n2h q) = 1
               \<and> read64 (mem s4) q = 0 \<and> read64 (mem s4) (q + 8) = 0
               \<and> read64 (mem s4) (q + 16) = 0 \<and> heap_brk s4 = heap_brk s2))"
proof -
  have "calloc s nmemb sz =
     (case malloc s (word_of_nat ((unat nmemb * unat sz) mod 2 ^ 64)) of
        None \<Rightarrow> None
      | Some (p, s1) \<Rightarrow>
          if p = 0 then Some (0, s1)
          else (case memset (mem s1) p 0 (word_of_nat ((unat nmemb * unat sz) mod 2 ^ 64)) of
                  None \<Rightarrow> None
                | Some m' \<Rightarrow> Some (p, s1\<lparr>mem := m'\<rparr>)))"
    unfolding wrapped_product by (auto simp: calloc_def Let_def split: option.splits)
  moreover have "unat (9223372036854775820 :: size_t) * unat (2 :: size_t) = 2 ^ 64 + 24"
    by simp
  moreover have "case malloc (snd (mm_init (fresh_state 0x2000))) 24 of
        None \<Rightarrow> False
      | Some (p, s2) \<Rightarrow> p = 0x1020 \<and>
          read64 (mem (free s2 p)) p = 0x1020 \<and> read64 (mem (free s2 p)) (p + 8) = 0x1020
          \<and> read64 (mem (free s2 p)) (p + 16) = 32 \<and>
          (case calloc (free s2 p) 9223372036854775820 2 of
             None \<Rightarrow> False
           | Some (q, s4) \<Rightarrow> q = 0x1020 \<and> get_size (mem s4) (n2h q) = 32
               \<and> is_alloc (mem s4) (n2h q) = 1
               \<and> read64 (mem s4) q = 0 \<and> read64 (mem s4) (q + 8) = 0
               \<and> read64 (mem s4) (q + 16) = 0 \<and> heap_brk s4 = heap_brk s2)"
    by (simp add: fresh_state_def run_simps)
  ultimately show ?thesis by simp
qed

section \<open>realloc\<close>

text \<open>
  C1, on a run of the code. A fresh heap is initialised, \<^verbatim>\<open>p = malloc(24)\<close> takes a
  32-byte block, and \<^verbatim>\<open>realloc(p, 40)\<close> succeeds with a new block. The old block is not
  released: its header still carries the alloc bit and every list head is still null.
  \<^verbatim>\<open>realloc\<close> calls \<^verbatim>\<open>malloc\<close> and \<^verbatim>\<open>memcpy\<close> and returns; it never calls \<^verbatim>\<open>free\<close>.
\<close>

theorem realloc_keeps_old_block:
  "(case malloc (snd (mm_init (fresh_state 0x2000))) 24 of
      None \<Rightarrow> False
    | Some (p, s2) \<Rightarrow> p = 0x1020 \<and> is_alloc (mem s2) (n2h p) = 1 \<and>
        (case realloc s2 p 40 of
           None \<Rightarrow> False
         | Some (q, s3) \<Rightarrow> q = 0x1040 \<and> is_alloc (mem s3) (n2h p) = 1
             \<and> head s3 = [0, 0, 0, 0, 0, 0, 0, 0, 0, 0, 0, 0, 0, 0, 0, 0]))"
  by (simp add: fresh_state_def run_simps)

text \<open>
  C2, on the same run. The number of bytes \<^verbatim>\<open>realloc\<close> copies is the smaller of the
  request and the old block's size, header word included, not the old payload's size.
  The old block has 32 bytes, so its payload has 24; \<^verbatim>\<open>realloc(p, 40)\<close> copies 32 bytes:
  the word at offset 24 of the new payload is the word that follows the old payload
  (the header of the next block, \<open>0x33\<close>), where fresh memory held 0.
\<close>

theorem realloc_copies_block_size:
  "realloc s oldptr n =
     (if oldptr = 0 then malloc s n
      else if n = 0 then Some (0, free s oldptr)
      else case malloc s n of
             None \<Rightarrow> None
           | Some (newptr, s1) \<Rightarrow>
               (case memcpy (mem s1) newptr oldptr (min n (get_size (mem s1) (oldptr - 8))) of
                  None \<Rightarrow> None
                | Some m' \<Rightarrow> Some (newptr, s1\<lparr>mem := m'\<rparr>)))
   \<and> (case malloc (snd (mm_init (fresh_state 0x2000))) 24 of
        None \<Rightarrow> False
      | Some (p, s2) \<Rightarrow> p = 0x1020 \<and> get_size (mem s2) (n2h p) = 32 \<and>
          (case realloc s2 p 40 of
             None \<Rightarrow> False
           | Some (q, s3) \<Rightarrow> q = 0x1040 \<and> read64 (mem s3) (p + 24) = 0x33
               \<and> read64 (mem s3) (q + 24) = 0x33 \<and> read64 (mem s3) (q + 32) = 0))"
proof -
  have m: "min n x = (if n > x then x else n)" for x :: size_t
    by (auto simp: min_def)
  have "realloc s oldptr n =
     (if oldptr = 0 then malloc s n
      else if n = 0 then Some (0, free s oldptr)
      else case malloc s n of
             None \<Rightarrow> None
           | Some (newptr, s1) \<Rightarrow>
               (case memcpy (mem s1) newptr oldptr (min n (get_size (mem s1) (oldptr - 8))) of
                  None \<Rightarrow> None
                | Some m' \<Rightarrow> Some (newptr, s1\<lparr>mem := m'\<rparr>)))"
    by (auto simp: realloc_def decr_def Let_def m split: option.splits)
  moreover have "case malloc (snd (mm_init (fresh_state 0x2000))) 24 of
        None \<Rightarrow> False
      | Some (p, s2) \<Rightarrow> p = 0x1020 \<and> get_size (mem s2) (n2h p) = 32 \<and>
          (case realloc s2 p 40 of
             None \<Rightarrow> False
           | Some (q, s3) \<Rightarrow> q = 0x1040 \<and> read64 (mem s3) (p + 24) = 0x33
               \<and> read64 (mem s3) (q + 24) = 0x33 \<and> read64 (mem s3) (q + 32) = 0)"
    by (simp add: fresh_state_def run_simps)
  ultimately show ?thesis by simp
qed

text \<open>
  C3, on a run of the code. The provider can hand out 64 bytes: initialisation and
  \<^verbatim>\<open>p = malloc(24)\<close> use them up. In that state every extension request misses.
  \<^verbatim>\<open>malloc(40)\<close> and \<^verbatim>\<open>calloc(1, 40)\<close> return null and leave the state as it was.
  \<^verbatim>\<open>realloc(p, 40)\<close> does not return null: its \<^verbatim>\<open>malloc\<close> returns null, which
  \<^verbatim>\<open>realloc\<close> does not test for (as \<^verbatim>\<open>calloc\<close> does), and it calls \<^verbatim>\<open>memcpy\<close> to copy
  32 bytes to the null pointer, a call that does not return.
\<close>

theorem realloc_miss_writes_at_null:
  "(case malloc (snd (mm_init (fresh_state 0x1040))) 24 of
      None \<Rightarrow> False
    | Some (p, s2) \<Rightarrow> p = 0x1020 \<and> heap_brk s2 = heap_max s2
        \<and> mm_sbrk s2 (padded_size 40) = (0, s2)
        \<and> malloc s2 40 = Some (0, s2) \<and> calloc s2 1 40 = Some (0, s2)
        \<and> min 40 (get_size (mem s2) (p - 8)) = 32
        \<and> memcpy (mem s2) 0 p 32 = None
        \<and> realloc s2 p 40 = None)"
  by (simp add: fresh_state_def run_simps)

section \<open>Words at integer addresses\<close>

lemma mod_neg_range: "- M \<le> x \<Longrightarrow> x < 0 \<Longrightarrow> (x :: int) mod M = x + M"
proof -
  assume a: "- M \<le> x" "x < 0"
  have "x mod M = (x + M) mod M" by simp
  also have "\<dots> = x + M" using a by (intro mod_pos_pos_trivial) auto
  finally show ?thesis .
qed

lemma uint_wp: "0 \<le> a \<Longrightarrow> a < 2 ^ 64 \<Longrightarrow> uint (wp a) = a"
  by (simp add: uint_word_of_int)

lemma wp_inj: "0 \<le> a \<Longrightarrow> a < 2 ^ 64 \<Longrightarrow> 0 \<le> b \<Longrightarrow> b < 2 ^ 64 \<Longrightarrow> wp a = wp b \<Longrightarrow> a = b"
  by (metis uint_wp)

lemma wp_add_num: "wp a + numeral k = wp (a + numeral k)"
  by simp

lemma wp_sub_num: "wp a - numeral k = wp (a - numeral k)"
  by simp

lemma wp_diff_le:
  assumes "0 \<le> n" "0 \<le> a" "a + n \<le> b" "b < 2 ^ 64"
  shows "wp n \<le> wp b - wp a"
proof -
  have "uint (wp b - wp a) = (b - a) mod 2 ^ 64"
    by (simp add: uint_word_of_int flip: of_int_diff)
  also have "\<dots> = b - a" using assms by (intro mod_pos_pos_trivial) auto
  finally show ?thesis using assms by (simp add: word_le_def uint_word_of_int)
qed

lemma wp_diff_le':
  assumes "0 \<le> n" "0 \<le> b" "b < a" "a + n \<le> 2 ^ 64"
  shows "wp n \<le> wp b - wp a"
proof -
  have "uint (wp b - wp a) = (b - a) mod 2 ^ 64"
    by (simp add: uint_word_of_int flip: of_int_diff)
  also have "\<dots> = b - a + 2 ^ 64" using assms by (intro mod_neg_range) auto
  finally show ?thesis using assms by (simp add: word_le_def uint_word_of_int)
qed

lemma rd_wr_same: "rd (write64 m (wp a) v) a = v"
  by (simp add: rd_def read64_write64_same)

lemma rd_wr_other:
  assumes "0 \<le> a" "a + 8 \<le> 2 ^ 64" "0 \<le> b" "b + 8 \<le> 2 ^ 64" "a + 8 \<le> b \<or> b + 8 \<le> a"
  shows "rd (write64 m (wp a) v) b = rd m b"
proof -
  have "(8 :: 64 word) \<le> wp b - wp a \<and> (8 :: 64 word) \<le> wp a - wp b"
    using assms wp_diff_le[of 8 a b] wp_diff_le'[of 8 b a] wp_diff_le[of 8 b a] wp_diff_le'[of 8 a b]
    by auto
  then show ?thesis unfolding rd_def by (simp add: read64_write64_disj)
qed



lemma bit_wp16: 
  assumes "16 dvd sz" "bit (wp sz) n"
  shows "4 \<le> n"
proof -
  from assms obtain k where k: "sz = 16 * k" by (auto simp: dvd_def)
  have "wp sz = push_bit 4 (wp k)" by (simp add: k push_bit_eq_mult)
  with assms show ?thesis by (simp add: bit_push_bit_iff)
qed

lemma bit_one_word: "bit (1 :: 64 word) n \<longleftrightarrow> n = 0"
  by (simp add: bit_1_iff)

lemma bit_two_word: "bit (2 :: 64 word) n \<longleftrightarrow> n = 1"
  using bit_or2[of 0 n] by simp

lemma bit_zero_word: "bit (0 :: 64 word) n \<longleftrightarrow> False"
  by simp

lemma bit_hdr:
  "bit (hdr sz pa al) n \<longleftrightarrow> bit (wp sz) n \<or> (al \<and> n = 0) \<or> (pa \<and> n = 1)"
  unfolding hdr_def
  by (cases al; cases pa;
      simp only: if_True if_False bit_or_iff bit_one_word bit_two_word bit_zero_word; blast)

lemma hdr_size: "16 dvd sz \<Longrightarrow> hdr sz pa al AND NOT 0xf = wp sz"
  by (rule bit_word_eqI) (auto simp only: bit_and_not15 bit_hdr dest: bit_wp16)

lemma hdr_bit0: "16 dvd sz \<Longrightarrow> bit (hdr sz pa al) 0 = al"
  by (auto simp: bit_hdr dest: bit_wp16)

lemma hdr_bit1: "16 dvd sz \<Longrightarrow> bit (hdr sz pa al) 1 = pa"
  by (auto simp: bit_hdr dest: bit_wp16)

lemma hdr_set: "16 dvd sz \<Longrightarrow> hdr sz pa al OR 0x2 = hdr sz True al"
  by (rule bit_word_eqI) (auto simp only: bit_or2 bit_hdr)


lemma make_h_hdr: "make_h m p (wp sz) (flag pa) (flag al) = write64 m p (hdr sz pa al)"
  by (simp add: make_h_def hdr_def flag_def)

lemma make_f_free: "make_f m p (wp sz) 0 = write64 m p (wp sz)"
  by (simp add: make_f_def)

lemma get_size_hdr: "16 dvd sz \<Longrightarrow> read64 m p = hdr sz pa al \<Longrightarrow> get_size m p = wp sz"
  by (simp only: get_size_def hdr_size)


lemma is_alloc_hdr: "16 dvd sz \<Longrightarrow> read64 m p = hdr sz pa al \<Longrightarrow> is_alloc m p = flag al"
  by (simp only: is_alloc_def uint_mod2 hdr_bit0 flag_def)

lemma get_prev_alloc_hdr: "16 dvd sz \<Longrightarrow> read64 m p = hdr sz pa al \<Longrightarrow> get_prev_alloc m p = flag pa"
  by (simp only: get_prev_alloc_def uint_bit1 hdr_bit1 flag_def)

section \<open>The extender\<close>

lemma uint_and15: "uint (n AND 0xf :: 64 word) = uint n mod 16"
proof -
  have "(0xf :: 64 word) = mask 4" by (simp add: mask_eq_exp_minus_1)
  then have "uint (n AND 0xf) = uint (take_bit 4 n)" by (simp only: take_bit_eq_mask)
  also have "\<dots> = take_bit 4 (uint n)" by (rule unsigned_take_bit_eq)
  also have "\<dots> = uint n mod 16" by (simp add: take_bit_eq_mod)
  finally show ?thesis .
qed

lemma aligned_size_dvd: "n AND 0xf = (0 :: 64 word) \<Longrightarrow> 16 dvd uint n"
  using uint_and15[of n] by (simp add: dvd_eq_mod_eq_0)

lemma aligned_size_bound:
  assumes "16 dvd uint (n :: 64 word)"
  shows "uint n \<le> 2 ^ 64 - 16"
proof -
  from assms obtain k where k: "uint n = 16 * k" by (auto simp: dvd_def)
  have "uint n < 2 ^ 64" using uint_lt2p[of n] by simp
  with k have "k < 2 ^ 60" by simp
  with k show ?thesis by simp
qed

lemma neg_size_ge8:
  assumes "16 dvd uint (n :: 64 word)" "32 \<le> n"
  shows "8 \<le> - n" "8 \<le> n"
proof -
  have a: "uint n \<le> 2 ^ 64 - 16" using assms aligned_size_bound by blast
  have b: "32 \<le> uint n" using assms by (simp add: word_le_def)
  have "- n = 0 - n" by simp
  then have "uint (- n) = 2 ^ 64 - uint n"
    using b by (simp only: uint_sub_cases) simp
  with a show "8 \<le> - n" by (simp add: word_le_def)
  from b show "8 \<le> n" by (simp add: word_le_def)
qed

lemma flag_cases: "get_prev_alloc m p = flag (bit (read64 m p) 1)"
  by (simp only: get_prev_alloc_def uint_bit1 flag_def)

text \<open>
  C5. The extender, on a request of \<open>n\<close> bytes (a multiple of 16, at least 32) that the
  provider satisfies with base \<open>B\<close>: the break moves by exactly \<open>n\<close>, and \<open>B\<close>, the old
  break, is returned. The word at \<open>B - 8\<close>, which was the epilogue, is the new header: size
  \<open>n\<close>, the alloc bit, and the prev-alloc bit that the old epilogue carried (\<^verbatim>\<open>extend\<close> reads
  it at \<^verbatim>\<open>mm_heap_hi() - 7\<close> before it asks for memory). The word at \<open>B + n - 8\<close> is the new
  epilogue, \<open>3\<close>: size 0 and the alloc bit. The list heads are the same and every byte
  outside these two words is the same: no footer is written and nothing is linked.
\<close>

theorem extend_writes_block:
  assumes "n AND 0xf = 0" "32 \<le> n" "mm_sbrk s n = (B, s1)" "B \<noteq> 0"
  shows "case extend s n of (r, s') \<Rightarrow>
      r = B \<and> B = heap_brk s \<and> heap_brk s' = heap_brk s + n \<and> heap_lo s' = heap_lo s
      \<and> heap_max s' = heap_max s \<and> head s' = head s
      \<and> get_size (mem s') (B - 8) = n
      \<and> get_prev_alloc (mem s') (B - 8) = get_prev_alloc (mem s) (mm_heap_hi s - 7)
      \<and> is_alloc (mem s') (B - 8) = 1
      \<and> read64 (mem s') (B + n - 8) = 3
      \<and> get_size (mem s') (B + n - 8) = 0 \<and> is_alloc (mem s') (B + n - 8) = 1
      \<and> (\<forall>x. 8 \<le> x - (B - 8) \<and> 8 \<le> x - (B + n - 8) \<longrightarrow> mem s' x = mem s x)"
proof -
  define pa where "pa = bit (read64 (mem s) (mm_heap_hi s - 7)) 1"
  have d: "16 dvd uint n" using assms(1) by (rule aligned_size_dvd)
  have q: "get_prev_alloc (mem s) (mm_heap_hi s - 7) = flag pa"
    by (simp add: flag_cases pa_def)
  from assms(3,4) have B: "B = heap_brk s" and s1: "s1 = s\<lparr>heap_brk := heap_brk s + n\<rparr>"
    by (auto simp: mm_sbrk_def split: if_splits)
  define m1 where "m1 = write64 (mem s) (B - 8) (hdr (uint n) pa True)"
  define m2 where "m2 = write64 m1 (B + n - 8) (hdr 0 True True)"
  have e: "extend s n = (B, s1\<lparr>mem := m2\<rparr>)"
    using assms(3,4) make_h_hdr[of "mem s" "B - 8" "uint n" pa True]
      make_h_hdr[of m1 "B + n - 8" 0 True True]
    by (simp add: extend_def Let_def q decr_def incr_def make_epi_def m1_def m2_def s1 flag_def
        algebra_simps)
  have disj: "8 \<le> (B - 8) - (B + n - 8)" "8 \<le> (B + n - 8) - (B - 8)"
    using neg_size_ge8[OF d assms(2)] by simp_all
  have r1: "read64 m2 (B - 8) = hdr (uint n) pa True"
    unfolding m2_def using disj by (simp add: read64_write64_disj m1_def read64_write64_same)
  have r2: "read64 m2 (B + n - 8) = hdr 0 True True"
    unfolding m2_def by (simp add: read64_write64_same)
  have h3: "hdr 0 True True = 3" by (simp add: hdr_def)
  have fr: "mem (s1\<lparr>mem := m2\<rparr>) x = mem s x" if "8 \<le> x - (B - 8)" "8 \<le> x - (B + n - 8)" for x
    using that by (simp add: m2_def m1_def write64_other s1)
  show ?thesis
    unfolding e prod.case
    using get_size_hdr[OF d r1] is_alloc_hdr[OF d r1] get_prev_alloc_hdr[OF d r1]
      get_size_hdr[of 0 m2 "B + n - 8" True True] is_alloc_hdr[of 0 m2 "B + n - 8" True True] r2 fr
    by (simp add: B s1 q flag_def h3)
qed

section \<open>Rings of free nodes\<close>

lemma frame_refl: "frame R m m"
  by (simp add: frame_def)

lemma frame_trans: "frame R m m1 \<Longrightarrow> frame R m1 m2 \<Longrightarrow> frame R m m2"
  by (simp add: frame_def)

lemma frame_mono: "frame R m m' \<Longrightarrow> R \<subseteq> R' \<Longrightarrow> frame R' m m'"
  unfolding frame_def by blast

lemma frame_write:
  "0 \<le> c \<Longrightarrow> c + 8 \<le> 2 ^ 64 \<Longrightarrow> (lo, hi) \<in> R \<Longrightarrow> lo \<le> c \<Longrightarrow> c + 8 \<le> hi
    \<Longrightarrow> frame R m (write64 m (wp c) v)"
proof -
  assume a: "0 \<le> c" "c + 8 \<le> 2 ^ 64" "(lo, hi) \<in> R" "lo \<le> c" "c + 8 \<le> hi"
  have "rd (write64 m (wp c) v) b = rd m b"
    if "0 \<le> b" "b + 8 \<le> 2 ^ 64" "\<forall>lo hi. (lo, hi) \<in> R \<longrightarrow> b + 8 \<le> lo \<or> hi \<le> b" for b
  proof -
    from that(3) a(3) have "b + 8 \<le> lo \<or> hi \<le> b" by blast
    with a have "c + 8 \<le> b \<or> b + 8 \<le> c" by linarith
    with a that show ?thesis by (intro rd_wr_other) auto
  qed
  then show ?thesis unfolding frame_def by blast
qed

lemma wp_uint_read: "wp (uint w) = (w :: 64 word)"
  by simp

lemma pv_write_prev:
  assumes "nodes_wf NS" "(n, c) \<in> NS" "(n', c') \<in> NS"
  shows "pv (write64 m (wp n') v) n = (if n = n' then uint v else pv m n)"
proof (cases "n = n'")
  case True
  then show ?thesis by (simp add: pv_def node_prev_def read64_write64_same)
next
  case False
  with assms have "n + 16 \<le> n' \<or> n' + 16 \<le> n" "0 < n" "n + 16 \<le> 2 ^ 64" "0 < n'" "n' + 16 \<le> 2 ^ 64"
    unfolding nodes_wf_def by blast+
  then have "rd (write64 m (wp n') v) n = rd m n"
    by (intro rd_wr_other) auto
  with False show ?thesis by (simp add: pv_def node_prev_def rd_def)
qed

lemma pv_write_next:
  assumes "nodes_wf NS" "(n, c) \<in> NS" "(n', c') \<in> NS"
  shows "pv (write64 m (wp n' + 8) v) n = pv m n"
proof -
  from assms have "n = n' \<or> n + 16 \<le> n' \<or> n' + 16 \<le> n" "0 < n" "n + 16 \<le> 2 ^ 64" "0 < n'" "n' + 16 \<le> 2 ^ 64"
    unfolding nodes_wf_def by blast+
  then have "rd (write64 m (wp (n' + 8)) v) n = rd m n"
    by (intro rd_wr_other) auto
  then show ?thesis by (simp add: pv_def node_prev_def rd_def)
qed

lemma nx_write_next:
  assumes "nodes_wf NS" "(n, c) \<in> NS" "(n', c') \<in> NS"
  shows "nx (write64 m (wp n' + 8) v) n = (if n = n' then uint v else nx m n)"
proof (cases "n = n'")
  case True
  then show ?thesis by (simp add: nx_def node_next_def read64_write64_same)
next
  case False
  with assms have "n + 16 \<le> n' \<or> n' + 16 \<le> n" "0 < n" "n + 16 \<le> 2 ^ 64" "0 < n'" "n' + 16 \<le> 2 ^ 64"
    unfolding nodes_wf_def by blast+
  then have "rd (write64 m (wp (n' + 8)) v) (n + 8) = rd m (n + 8)"
    by (intro rd_wr_other) auto
  with False show ?thesis by (simp add: nx_def node_next_def rd_def)
qed

lemma nx_write_prev:
  assumes "nodes_wf NS" "(n, c) \<in> NS" "(n', c') \<in> NS"
  shows "nx (write64 m (wp n') v) n = nx m n"
proof -
  from assms have "n = n' \<or> n + 16 \<le> n' \<or> n' + 16 \<le> n" "0 < n" "n + 16 \<le> 2 ^ 64" "0 < n'" "n' + 16 \<le> 2 ^ 64"
    unfolding nodes_wf_def by blast+
  then have "rd (write64 m (wp n') v) (n + 8) = rd m (n + 8)"
    by (intro rd_wr_other) auto
  then show ?thesis by (simp add: nx_def node_next_def rd_def)
qed

lemma node_range: "nodes_wf NS \<Longrightarrow> (n, c) \<in> NS \<Longrightarrow> 0 < n \<and> n + 16 \<le> 2 ^ 64 \<and> 0 \<le> c \<and> c < 16"
  unfolding nodes_wf_def by blast

lemma node_uint: "nodes_wf NS \<Longrightarrow> (n, c) \<in> NS \<Longrightarrow> uint (wp n) = n"
  using node_range[of NS n c] by (intro uint_wp) auto

lemma node_nonnull: "nodes_wf NS \<Longrightarrow> (n, c) \<in> NS \<Longrightarrow> wp n \<noteq> 0"
  using node_uint[of NS n c] node_range[of NS n c] by auto

lemma node_class_unique: 
  assumes "nodes_wf NS" "(n, c) \<in> NS" "(n, c') \<in> NS"
  shows "c = c'"
proof -
  from assms have "(n = n \<and> c = c') \<or> n + 16 \<le> n \<or> n + 16 \<le> n"
    unfolding nodes_wf_def by blast
  then show ?thesis by simp
qed

lemma ring_remove:
  assumes ok: "\<forall>n c. (n, c) \<in> NS \<longrightarrow> (f n, c) \<in> NS \<and> (g n, c) \<in> NS \<and> g (f n) = n \<and> f (g n) = n"
    and uq: "\<forall>n c c'. (n, c) \<in> NS \<longrightarrow> (n, c') \<in> NS \<longrightarrow> c = c'"
    and x: "(x, cx) \<in> NS"
    and f': "\<forall>n c. (n, c) \<in> NS \<longrightarrow> n \<noteq> x \<longrightarrow> f' n = (if n = g x then f x else f n)"
    and g': "\<forall>n c. (n, c) \<in> NS \<longrightarrow> n \<noteq> x \<longrightarrow> g' n = (if n = f x then g x else g n)"
    and n: "(n, c) \<in> NS - {(x, cx)}"
  shows "(f' n, c) \<in> NS - {(x, cx)} \<and> (g' n, c) \<in> NS - {(x, cx)} \<and> g' (f' n) = n \<and> f' (g' n) = n"
proof -
  from n uq x have nx: "n \<noteq> x" and nm: "(n, c) \<in> NS" by auto
  have fx: "(f x, cx) \<in> NS" "(g x, cx) \<in> NS" "g (f x) = x" "f (g x) = x" using ok x by auto
  have fn: "(f n, c) \<in> NS" "(g n, c) \<in> NS" "g (f n) = n" "f (g n) = n" using ok nm by auto
  show ?thesis
  proof (cases "n = g x")
    case True
    then have c: "c = cx" using uq nm fx by blast
    have f'n: "f' n = f x" using f' nm nx True by auto
    have fxx: "f x \<noteq> x" using True nx fx by metis
    have g'fx: "g' (f x) = g x" using g' fx fxx by auto
    show ?thesis
    proof (cases "n = f x")
      case True
      then have g'n: "g' n = g x" using g' nm nx by auto
      from f'n g'n g'fx True \<open>n = g x\<close> fx c fxx nx show ?thesis by auto
    next
      case False
      then have g'n: "g' n = g n" using g' nm nx by auto
      have gnx: "g n \<noteq> x" using fn fx False by metis
      have gng: "g n \<noteq> g x" using fn fx nx by metis
      have "f' (g n) = f (g n)" using f' fn gnx gng by auto
      with f'n g'n g'fx True fx c fxx fn gnx show ?thesis by auto
    qed
  next
    case False
    then have f'n: "f' n = f n" using f' nm nx by auto
    have fnx: "f n \<noteq> x" using fn fx False by metis
    have fnf: "f n \<noteq> f x" using fn fx nx by metis
    have g'fn: "g' (f n) = g (f n)" using g' fn fnx fnf by auto
    show ?thesis
    proof (cases "n = f x")
      case True
      then have c: "c = cx" using uq nm fx by blast
      have g'n: "g' n = g x" using g' nm nx True by auto
      have gxx: "g x \<noteq> x" using True nx fx by metis
      have "f' (g x) = f x" using f' fx gxx by auto
      with f'n g'n g'fn True fx fn c gxx fnx show ?thesis by auto
    next
      case F2: False
      then have g'n: "g' n = g n" using g' nm nx by auto
      have gnx: "g n \<noteq> x" using fn fx F2 by metis
      have gng: "g n \<noteq> g x" using fn fx nx by metis
      have "f' (g n) = f (g n)" using f' fn gnx gng by auto
      with f'n g'n g'fn fn gnx fnx show ?thesis by auto
    qed
  qed
qed

lemma link_rangesI: "(n, c) \<in> NS \<Longrightarrow> (n, n + 16) \<in> link_ranges NS"
  unfolding link_ranges_def by force

lemma frame_write_prev:
  assumes "nodes_wf NS" "(n, c) \<in> NS"
  shows "frame (link_ranges NS) m (write64 m (wp n) v)"
  using node_range[OF assms] link_rangesI[OF assms(2)]
  by (intro frame_write[where lo = n and hi = "n + 16"]) auto

lemma frame_write_next:
  assumes "nodes_wf NS" "(n, c) \<in> NS"
  shows "frame (link_ranges NS) m (write64 m (wp n + 8) v)"
  using node_range[OF assms] link_rangesI[OF assms(2)]
    frame_write[where lo = n and hi = "n + 16" and c = "n + 8" and R = "link_ranges NS" and m = m and v = v]
  by auto


lemma wp_pv: "wp (pv m n) = node_prev m (wp n)"
  by (simp add: pv_def)

lemma removenode_ok:
  assumes lk: "links_ok (mem s) NS" and hd: "heads_ok (head s) NS" and wf: "nodes_wf NS"
    and x: "(x, c) \<in> NS"
  shows "links_ok (mem (removenode s (wp x) c)) (NS - {(x, c)})
    \<and> heads_ok (head (removenode s (wp x) c)) (NS - {(x, c)})
    \<and> frame (link_ranges NS) (mem s) (mem (removenode s (wp x) c))
    \<and> heap_lo (removenode s (wp x) c) = heap_lo s
    \<and> heap_brk (removenode s (wp x) c) = heap_brk s
    \<and> heap_max (removenode s (wp x) c) = heap_max s"
proof -
  define m where "m = mem s"
  define P where "P = pv m x"
  define N where "N = nx m x"
  have ok: "\<forall>n c. (n, c) \<in> NS \<longrightarrow> (nx m n, c) \<in> NS \<and> (pv m n, c) \<in> NS
      \<and> pv m (nx m n) = n \<and> nx m (pv m n) = n"
    using lk unfolding links_ok_def m_def by blast
  have uq: "\<forall>n c c'. (n, c) \<in> NS \<longrightarrow> (n, c') \<in> NS \<longrightarrow> c = c'"
    using node_class_unique[OF wf] by blast
  have PN: "(P, c) \<in> NS" "(N, c) \<in> NS" "pv m N = x" "nx m P = x"
    using ok x unfolding P_def N_def by auto
  have ux: "uint (wp x) = x" and uP: "uint (wp P) = P" and uN: "uint (wp N) = N"
    using node_uint[OF wf] x PN by auto
  have wN: "node_next m (wp x) = wp N" and wP: "node_prev m (wp x) = wp P"
    by (simp_all add: N_def P_def nx_def pv_def)
  have cr: "0 \<le> c" "c < 16" using node_range[OF wf x] by auto
  have len: "length (head s) = 16" using hd unfolding heads_ok_def by simp
  have hds: "\<And>i. i < 16 \<Longrightarrow> head s ! i = 0 \<or> (uint (head s ! i), int i) \<in> NS"
    using hd unfolding heads_ok_def by simp
  show ?thesis
  proof (cases "wp x = node_next m (wp x) \<and> head s ! nat c = wp x")
    case True
    then have Nx: "N = x" using wN ux uN by metis
    then have Px: "P = x" using PN ok x P_def by metis
    have r: "removenode s (wp x) c = s\<lparr>head := (head s)[nat c := 0]\<rparr>"
      using True by (simp add: removenode_def m_def)
    have l: "links_ok m (NS - {(x, c)})"
      unfolding links_ok_def
    proof (intro allI impI)
      fix n k assume "(n, k) \<in> NS - {(x, c)}"
      then show "(nx m n, k) \<in> NS - {(x, c)} \<and> (pv m n, k) \<in> NS - {(x, c)}
          \<and> pv m (nx m n) = n \<and> nx m (pv m n) = n"
        using ring_remove[where f = "nx m" and g = "pv m" and f' = "nx m" and g' = "pv m"
            and NS = NS and x = x and cx = c and n = n and c = k] ok uq x Nx Px
        unfolding N_def P_def by auto
    qed
    have h: "heads_ok ((head s)[nat c := 0]) (NS - {(x, c)})"
      unfolding heads_ok_def
    proof (intro conjI allI impI)
      show "length ((head s)[nat c := 0]) = 16" using len by simp
      fix i :: nat assume i: "i < 16"
      show "(head s)[nat c := 0] ! i = 0 \<or> (uint ((head s)[nat c := 0] ! i), int i) \<in> NS - {(x, c)}"
      proof (cases "i = nat c")
        case True
        then show ?thesis using len i by simp
      next
        case False
        then have "int i \<noteq> c" using cr by auto
        with False hds[OF i] show ?thesis by auto
      qed
    qed
    show ?thesis
      unfolding r using l h by (simp add: m_def frame_refl)
  next
    case False
    define h1 where "h1 = (if head s ! nat c = wp x then (head s)[nat c := wp N] else head s)"
    define m1 where "m1 = write64 m (wp P + 8) (wp N)"
    define m2 where "m2 = write64 m1 (wp N) (wp P)"
    have nx1: "nx m1 n = (if n = P then N else nx m n)" if "(n, k) \<in> NS" for n k
      unfolding m1_def using nx_write_next[OF wf that PN(1)] uN by simp
    have pv1: "pv m1 n = pv m n" if "(n, k) \<in> NS" for n k
      unfolding m1_def using pv_write_next[OF wf that PN(1)] by simp
    have nx2: "nx m2 n = (if n = P then N else nx m n)" if "(n, k) \<in> NS" for n k
      unfolding m2_def using nx_write_prev[OF wf that PN(2)] nx1[OF that] by simp
    have pv2: "pv m2 n = (if n = N then P else pv m n)" if "(n, k) \<in> NS" for n k
      unfolding m2_def using pv_write_prev[OF wf that PN(2)] pv1[OF that] uP by simp
    have "nx m1 x = N" using nx1[OF x] by (simp add: N_def)
    then have wN1: "node_next m1 (wp x) = wp N" by (simp add: nx_def) (metis word_of_int_uint)
    have "pv m1 x = P" using pv1[OF x] by (simp add: P_def)
    then have wP1: "node_prev m1 (wp x) = wp P" by (simp add: pv_def) (metis word_of_int_uint)
    have r: "removenode s (wp x) c = s\<lparr>head := h1, mem := m2\<rparr>"
      using False wN wP wN1 wP1
      by (auto simp: removenode_def m_def Let_def h1_def m1_def m2_def set_node_next_def
          set_node_prev_def)
    have l: "links_ok m2 (NS - {(x, c)})"
      unfolding links_ok_def
    proof (intro allI impI)
      fix n k assume "(n, k) \<in> NS - {(x, c)}"
      then show "(nx m2 n, k) \<in> NS - {(x, c)} \<and> (pv m2 n, k) \<in> NS - {(x, c)}
          \<and> pv m2 (nx m2 n) = n \<and> nx m2 (pv m2 n) = n"
        using ring_remove[where f = "nx m" and g = "pv m" and f' = "nx m2" and g' = "pv m2"
            and NS = NS and x = x and cx = c and n = n and c = k] ok uq x nx2 pv2
        unfolding N_def P_def by auto
    qed
    have h: "heads_ok h1 (NS - {(x, c)})"
      unfolding heads_ok_def
    proof (intro conjI allI impI)
      show "length h1 = 16" using len by (simp add: h1_def)
      fix i :: nat assume i: "i < 16"
      show "h1 ! i = 0 \<or> (uint (h1 ! i), int i) \<in> NS - {(x, c)}"
      proof (cases "i = nat c")
        case True
        then have ic: "int i = c" using cr by simp
        show ?thesis
        proof (cases "head s ! nat c = wp x")
          case T2: True
          then have "wp x \<noteq> wp N" using False wN by simp
          then have "N \<noteq> x" by auto
          moreover have "h1 ! i = wp N" using T2 True len i by (simp add: h1_def)
          ultimately show ?thesis using PN uN ic by simp
        next
          case F2: False
          then have "h1 ! i = head s ! i" by (simp add: h1_def)
          moreover have "uint (head s ! i) \<noteq> x" using F2 True by (metis word_of_int_uint)
          ultimately show ?thesis using hds[OF i] by auto
        qed
      next
        case False
        then have "int i \<noteq> c" using cr by auto
        moreover have "h1 ! i = head s ! i" using False by (simp add: h1_def)
        ultimately show ?thesis using hds[OF i] by auto
      qed
    qed
    have f: "frame (link_ranges NS) m m2"
      unfolding m2_def m1_def
      using frame_write_next[OF wf PN(1)] frame_write_prev[OF wf PN(2)] frame_trans by blast
    show ?thesis
      unfolding r using l h f by (simp add: m_def)
  qed
qed

lemma ring_insert:
  assumes ok: "\<forall>n c. (n, c) \<in> NS \<longrightarrow> (f n, c) \<in> NS \<and> (g n, c) \<in> NS \<and> g (f n) = n \<and> f (g n) = n"
    and uq: "\<forall>n c c'. (n, c) \<in> NS \<longrightarrow> (n, c') \<in> NS \<longrightarrow> c = c'"
    and F: "(F, cx) \<in> NS"
    and x: "\<forall>k. (x, k) \<notin> NS"
    and f': "\<forall>n c. (n, c) \<in> insert (x, cx) NS \<longrightarrow>
              f' n = (if n = x then F else if n = g F then x else f n)"
    and g': "\<forall>n c. (n, c) \<in> insert (x, cx) NS \<longrightarrow>
              g' n = (if n = x then g F else if n = F then x else g n)"
    and n: "(n, c) \<in> insert (x, cx) NS"
  shows "(f' n, c) \<in> insert (x, cx) NS \<and> (g' n, c) \<in> insert (x, cx) NS
     \<and> g' (f' n) = n \<and> f' (g' n) = n"
proof -
  have gF: "(g F, cx) \<in> NS" "(f F, cx) \<in> NS" "f (g F) = F" "g (f F) = F" using ok F by auto
  have Fx: "F \<noteq> x" "g F \<noteq> x" "f F \<noteq> x" using F gF x by auto
  have f'x: "f' x = F" and g'x: "g' x = g F" using f' g' by auto
  have f'gF: "f' (g F) = x" using f' gF Fx by auto
  have g'F: "g' F = x" using g' F Fx by auto
  show ?thesis
  proof (cases "n = x")
    case True
    then have "c = cx" using n x by auto
    with True f'x g'x f'gF g'F F gF show ?thesis by auto
  next
    case False
    then have nm: "(n, c) \<in> NS" using n by auto
    have fn: "(f n, c) \<in> NS" "(g n, c) \<in> NS" "g (f n) = n" "f (g n) = n" using ok nm by auto
    have fnx: "f n \<noteq> x" "g n \<noteq> x" using fn x by auto
    have f'n: "f' n = (if n = g F then x else f n)" using f' nm False by auto
    have g'n: "g' n = (if n = F then x else g n)" using g' nm False by auto
    have c: "n = g F \<or> n = F \<Longrightarrow> c = cx" using uq nm F gF by blast
    have a: "n \<noteq> g F \<Longrightarrow> g' (f n) = n"
    proof -
      assume "n \<noteq> g F"
      then have "f n \<noteq> F" using fn by metis
      then have "g' (f n) = g (f n)" using g' fn fnx by auto
      then show ?thesis using fn by simp
    qed
    have b: "n \<noteq> F \<Longrightarrow> f' (g n) = n"
    proof -
      assume "n \<noteq> F"
      then have "g n \<noteq> g F" using fn gF by metis
      then have "f' (g n) = f (g n)" using f' fn fnx by auto
      then show ?thesis using fn by simp
    qed
    show ?thesis
      using f'n g'n a b c fn f'x g'x f'gF g'F by auto
  qed
qed

lemma ring_single:
  assumes ok: "\<forall>n c. (n, c) \<in> NS \<longrightarrow> (f n, c) \<in> NS \<and> (g n, c) \<in> NS \<and> g (f n) = n \<and> f (g n) = n"
    and x: "\<forall>k. (x, k) \<notin> NS"
    and f': "\<forall>n c. (n, c) \<in> insert (x, cx) NS \<longrightarrow> f' n = (if n = x then x else f n)"
    and g': "\<forall>n c. (n, c) \<in> insert (x, cx) NS \<longrightarrow> g' n = (if n = x then x else g n)"
    and n: "(n, c) \<in> insert (x, cx) NS"
  shows "(f' n, c) \<in> insert (x, cx) NS \<and> (g' n, c) \<in> insert (x, cx) NS
     \<and> g' (f' n) = n \<and> f' (g' n) = n"
proof (cases "n = x")
  case True
  then have "c = cx" using n x by auto
  with True f' g' show ?thesis by auto
next
  case False
  then have nm: "(n, c) \<in> NS" using n by auto
  have fn: "(f n, c) \<in> NS" "(g n, c) \<in> NS" "g (f n) = n" "f (g n) = n" using ok nm by auto
  have fnx: "f n \<noteq> x" "g n \<noteq> x" using fn x by auto
  have "f' n = f n" "g' n = g n" "g' (f n) = g (f n)" "f' (g n) = f (g n)"
    using f' g' nm fn fnx False by auto
  with fn show ?thesis by auto
qed

lemma addnode_ok:
  assumes lk: "links_ok (mem s) NS" and hd: "heads_ok (head s) NS"
    and wf: "nodes_wf (insert (x, c) NS)" and new: "(x, c) \<notin> NS"
    and cls: "get_index (get_size (mem s) (n2h (wp x))) = c"
  shows "links_ok (mem (addnode s (wp x))) (insert (x, c) NS)
    \<and> heads_ok (head (addnode s (wp x))) (insert (x, c) NS)
    \<and> frame (link_ranges (insert (x, c) NS)) (mem s) (mem (addnode s (wp x)))
    \<and> heap_lo (addnode s (wp x)) = heap_lo s
    \<and> heap_brk (addnode s (wp x)) = heap_brk s
    \<and> heap_max (addnode s (wp x)) = heap_max s
    \<and> head (addnode s (wp x)) ! nat c \<noteq> 0
    \<and> (head (addnode s (wp x)) ! nat c = wp x
        \<or> node_prev (mem (addnode s (wp x))) (head (addnode s (wp x)) ! nat c) = wp x)"
proof -
  define m where "m = mem s"
  define NS' where "NS' = insert (x, c) NS"
  have ok: "\<forall>n c. (n, c) \<in> NS \<longrightarrow> (nx m n, c) \<in> NS \<and> (pv m n, c) \<in> NS
      \<and> pv m (nx m n) = n \<and> nx m (pv m n) = n"
    using lk unfolding links_ok_def m_def by blast
  have wf': "nodes_wf NS'" using wf by (simp add: NS'_def)
  have xin: "(x, c) \<in> NS'" by (simp add: NS'_def)
  have sub: "\<And>n k. (n, k) \<in> NS \<Longrightarrow> (n, k) \<in> NS'" by (simp add: NS'_def)
  have uq: "\<forall>n c c'. (n, c) \<in> NS \<longrightarrow> (n, c') \<in> NS \<longrightarrow> c = c'"
    using node_class_unique[OF wf'] sub by blast
  have xn: "\<forall>k. (x, k) \<notin> NS"
    using node_class_unique[OF wf' xin] sub new by blast
  have ux: "uint (wp x) = x" using node_uint[OF wf' xin] .
  have x0: "wp x \<noteq> 0" using node_nonnull[OF wf' xin] .
  have cr: "0 \<le> c" "c < 16" using node_range[OF wf' xin] by auto
  have len: "length (head s) = 16" using hd unfolding heads_ok_def by simp
  have hds: "\<And>i. i < 16 \<Longrightarrow> head s ! i = 0 \<or> (uint (head s ! i), int i) \<in> NS"
    using hd unfolding heads_ok_def by simp
  have nc: "nat c < 16" "int (nat c) = c" using cr by auto
  show ?thesis
  proof (cases "head s ! nat c = 0")
    case True
    define m1 where "m1 = write64 m (wp x) (wp x)"
    define m2 where "m2 = write64 m1 (wp x + 8) (wp x)"
    have r: "addnode s (wp x) = s\<lparr>head := (head s)[nat c := wp x], mem := m2\<rparr>"
      using True cls
      by (simp add: addnode_def Let_def m_def m1_def m2_def set_node_prev_def set_node_next_def)
    have nx2: "nx m2 n = (if n = x then x else nx m n)" if "(n, k) \<in> NS'" for n k
    proof -
      have "nx m2 n = (if n = x then uint (wp x) else nx m1 n)"
        unfolding m2_def by (rule nx_write_next[OF wf' that xin])
      moreover have "nx m1 n = nx m n"
        unfolding m1_def by (rule nx_write_prev[OF wf' that xin])
      ultimately show ?thesis using ux by simp
    qed
    have pv2: "pv m2 n = (if n = x then x else pv m n)" if "(n, k) \<in> NS'" for n k
    proof -
      have "pv m2 n = pv m1 n"
        unfolding m2_def by (rule pv_write_next[OF wf' that xin])
      moreover have "pv m1 n = (if n = x then uint (wp x) else pv m n)"
        unfolding m1_def by (rule pv_write_prev[OF wf' that xin])
      ultimately show ?thesis using ux by simp
    qed
    have l: "links_ok m2 NS'"
      unfolding links_ok_def
    proof (intro allI impI)
      fix n k assume "(n, k) \<in> NS'"
      then show "(nx m2 n, k) \<in> NS' \<and> (pv m2 n, k) \<in> NS' \<and> pv m2 (nx m2 n) = n \<and> nx m2 (pv m2 n) = n"
        using ring_single[where f = "nx m" and g = "pv m" and f' = "nx m2" and g' = "pv m2"
            and NS = NS and x = x and cx = c and n = n and c = k] ok xn nx2 pv2
        unfolding NS'_def by auto
    qed
    have h: "heads_ok ((head s)[nat c := wp x]) NS'"
      unfolding heads_ok_def
    proof (intro conjI allI impI)
      show "length ((head s)[nat c := wp x]) = 16" using len by simp
      fix i :: nat assume i: "i < 16"
      show "(head s)[nat c := wp x] ! i = 0 \<or> (uint ((head s)[nat c := wp x] ! i), int i) \<in> NS'"
      proof (cases "i = nat c")
        case True
        then show ?thesis using len i ux nc xin by simp
      next
        case False
        with hds[OF i] sub show ?thesis by auto
      qed
    qed
    have f: "frame (link_ranges NS') m m2"
      unfolding m2_def m1_def
      using frame_write_next[OF wf' xin] frame_write_prev[OF wf' xin] frame_trans by blast
    have "(head s)[nat c := wp x] ! nat c = wp x" using len nc by simp
    then show ?thesis
      unfolding r using l h f x0 by (simp add: m_def NS'_def)
  next
    case False
    define F where "F = uint (head s ! nat c)"
    define FP where "FP = pv m F"
    have wF: "head s ! nat c = wp F" by (simp add: F_def)
    have Fin: "(F, c) \<in> NS" using hds[OF nc(1)] False nc by (simp add: F_def)
    have FPin: "(FP, c) \<in> NS" using ok Fin by (auto simp: FP_def)
    have uF: "uint (wp F) = F" "uint (wp FP) = FP"
      using node_uint[OF wf'] Fin FPin sub by auto
    have Fx: "F \<noteq> x" "FP \<noteq> x" using Fin FPin xn by auto
    have wFP: "node_prev m (wp F) = wp FP" by (simp add: FP_def pv_def)
    define m1 where "m1 = write64 m (wp x) (wp FP)"
    define m2 where "m2 = write64 m1 (wp x + 8) (wp F)"
    define m3 where "m3 = write64 m2 (wp FP + 8) (wp x)"
    define m4 where "m4 = write64 m3 (wp F) (wp x)"
    have pv2: "pv m2 n = (if n = x then FP else pv m n)" if "(n, k) \<in> NS'" for n k
    proof -
      have "pv m2 n = pv m1 n"
        unfolding m2_def by (rule pv_write_next[OF wf' that xin])
      moreover have "pv m1 n = (if n = x then uint (wp FP) else pv m n)"
        unfolding m1_def by (rule pv_write_prev[OF wf' that xin])
      ultimately show ?thesis using uF by simp
    qed
    have nx2: "nx m2 n = (if n = x then F else nx m n)" if "(n, k) \<in> NS'" for n k
    proof -
      have "nx m2 n = (if n = x then uint (wp F) else nx m1 n)"
        unfolding m2_def by (rule nx_write_next[OF wf' that xin])
      moreover have "nx m1 n = nx m n"
        unfolding m1_def by (rule nx_write_prev[OF wf' that xin])
      ultimately show ?thesis using uF by simp
    qed
    have "pv m2 F = FP" using pv2[OF sub[OF Fin]] Fx by (simp add: FP_def)
    then have wFP2: "node_prev m2 (wp F) = wp FP" by (simp add: pv_def) (metis word_of_int_uint)
    have pv4: "pv m4 n = (if n = x then FP else if n = F then x else pv m n)" if "(n, k) \<in> NS'" for n k
    proof -
      have "pv m4 n = (if n = F then uint (wp x) else pv m3 n)"
        unfolding m4_def by (rule pv_write_prev[OF wf' that sub[OF Fin]])
      moreover have "pv m3 n = pv m2 n"
        unfolding m3_def by (rule pv_write_next[OF wf' that sub[OF FPin]])
      ultimately show ?thesis using pv2[OF that] ux Fx by (cases "n = x"; cases "n = F"; simp)
    qed
    have nx4: "nx m4 n = (if n = x then F else if n = FP then x else nx m n)" if "(n, k) \<in> NS'" for n k
    proof -
      have "nx m4 n = nx m3 n"
        unfolding m4_def by (rule nx_write_prev[OF wf' that sub[OF Fin]])
      moreover have "nx m3 n = (if n = FP then uint (wp x) else nx m2 n)"
        unfolding m3_def by (rule nx_write_next[OF wf' that sub[OF FPin]])
      ultimately show ?thesis using nx2[OF that] ux Fx by (cases "n = x"; cases "n = FP"; simp)
    qed
    have r: "addnode s (wp x) = s\<lparr>mem := m4\<rparr>"
      using False cls wF wFP wFP2
      by (simp add: addnode_def Let_def m_def m1_def m2_def m3_def m4_def set_node_prev_def
          set_node_next_def)
    have l: "links_ok m4 NS'"
      unfolding links_ok_def
    proof (intro allI impI)
      fix n k assume "(n, k) \<in> NS'"
      then show "(nx m4 n, k) \<in> NS' \<and> (pv m4 n, k) \<in> NS' \<and> pv m4 (nx m4 n) = n \<and> nx m4 (pv m4 n) = n"
        using ring_insert[where f = "nx m" and g = "pv m" and f' = "nx m4" and g' = "pv m4"
            and NS = NS and x = x and cx = c and n = n and c = k and F = F] ok uq xn nx4 pv4 Fin
        unfolding NS'_def FP_def by auto
    qed
    have h: "heads_ok (head s) NS'"
      using hd sub unfolding heads_ok_def by blast
    have f1: "frame (link_ranges NS') m m1"
      unfolding m1_def by (rule frame_write_prev[OF wf' xin])
    have f2: "frame (link_ranges NS') m1 m2"
      unfolding m2_def by (rule frame_write_next[OF wf' xin])
    have f3: "frame (link_ranges NS') m2 m3"
      unfolding m3_def by (rule frame_write_next[OF wf' sub[OF FPin]])
    have f4: "frame (link_ranges NS') m3 m4"
      unfolding m4_def by (rule frame_write_prev[OF wf' sub[OF Fin]])
    have f: "frame (link_ranges NS') m m4"
      by (rule frame_trans[OF frame_trans[OF frame_trans[OF f1 f2] f3] f4])
    have "pv m4 F = x" using pv4[OF sub[OF Fin]] Fx by simp
    then have "node_prev m4 (wp F) = wp x" by (simp add: pv_def) (metis word_of_int_uint)
    then show ?thesis
      unfolding r using l h f False wF by (simp add: m_def NS'_def)
  qed
qed

section \<open>Sequences of blocks\<close>

lemma total_append: "total (xs @ ys) = total xs + total ys"
  by (induction xs) auto

lemma last_alloc_append: "last_alloc pa (xs @ ys) = last_alloc (last_alloc pa xs) ys"
  by (induction xs arbitrary: pa) auto

lemma blocks_ok_append:
  "blocks_ok m a pa (xs @ ys) =
     (blocks_ok m a pa xs \<and> blocks_ok m (a + total xs) (last_alloc pa xs) ys)"
  by (induction xs arbitrary: a pa) (auto simp: algebra_simps)

lemma node_set_append: "node_set a (xs @ ys) = node_set a xs \<union> node_set (a + total xs) ys"
  by (induction xs arbitrary: a) (auto simp: algebra_simps)

lemma inside_append: "inside a (xs @ ys) lo hi = (inside a xs lo hi \<or> inside (a + total xs) ys lo hi)"
  by (induction xs arbitrary: a) (auto simp: algebra_simps)

lemma total_nonneg: "blocks_ok m a pa bs \<Longrightarrow> 0 \<le> total bs"
  by (induction bs arbitrary: a pa) auto


lemma get_index_range: "0 \<le> get_index x \<and> get_index x < 16"
  by (simp add: get_index_def)

lemma node_bounds:
  "blocks_ok m a pa bs \<Longrightarrow> (n, c) \<in> node_set a bs \<Longrightarrow>
     a + 8 \<le> n \<and> n + 24 \<le> a + total bs \<and> 0 \<le> c \<and> c < 16"
proof (induction bs arbitrary: a pa)
  case Nil
  then show ?case by simp
next
  case (Cons b bs)
  obtain sz al where b: "b = (sz, al)" by (cases b)
  from Cons.prems have ok: "32 \<le> sz" "blocks_ok m (a + sz) al bs" by (auto simp: b)
  have t: "0 \<le> total bs" using ok total_nonneg by blast
  from Cons.prems(2) consider "(n, c) = (a + 8, get_index (wp sz))" | "(n, c) \<in> node_set (a + sz) bs"
    by (auto simp: b split: if_splits)
  then show ?case
  proof cases
    case 1
    then show ?thesis using ok t get_index_range[of "wp sz"] by (simp add: b)
  next
    case 2
    from Cons.IH[OF ok(2) 2] ok show ?thesis by (simp add: b)
  qed
qed

lemma inside_bounds:
  "blocks_ok m a pa bs \<Longrightarrow> inside a bs lo hi \<Longrightarrow> a + 8 \<le> lo \<and> hi \<le> a + total bs"
proof (induction bs arbitrary: a pa)
  case Nil
  then show ?case by simp
next
  case (Cons b bs)
  obtain sz al where b: "b = (sz, al)" by (cases b)
  from Cons.prems have ok: "32 \<le> sz" "blocks_ok m (a + sz) al bs" by (auto simp: b)
  have t: "0 \<le> total bs" using ok total_nonneg by blast
  from Cons.prems(2) consider "a + 8 \<le> lo \<and> hi \<le> a + sz - (if al then 0 else 8)"
    | "inside (a + sz) bs lo hi" by (auto simp: b)
  then show ?case
  proof cases
    case 1
    then show ?thesis using ok t by (auto simp: b split: if_splits)
  next
    case 2
    from Cons.IH[OF ok(2) 2] ok show ?thesis by (simp add: b)
  qed
qed

lemma node_inside:
  "blocks_ok m a pa bs \<Longrightarrow> (n, c) \<in> node_set a bs \<Longrightarrow> inside a bs n (n + 16)"
proof (induction bs arbitrary: a pa)
  case Nil
  then show ?case by simp
next
  case (Cons b bs)
  obtain sz al where b: "b = (sz, al)" by (cases b)
  from Cons.prems have ok: "32 \<le> sz" "blocks_ok m (a + sz) al bs" by (auto simp: b)
  from Cons.prems(2) consider "n = a + 8 \<and> \<not> al" | "(n, c) \<in> node_set (a + sz) bs"
    by (auto simp: b split: if_splits)
  then show ?case
  proof cases
    case 1
    then show ?thesis using ok by (simp add: b)
  next
    case 2
    from Cons.IH[OF ok(2) 2] show ?thesis by (simp add: b)
  qed
qed

lemma nodes_wf_node_set:
  "blocks_ok m a pa bs \<Longrightarrow> 0 \<le> a \<Longrightarrow> a + total bs \<le> 2 ^ 64 \<Longrightarrow> nodes_wf (node_set a bs)"
proof (induction bs arbitrary: a pa)
  case Nil
  then show ?case by (simp add: nodes_wf_def)
next
  case (Cons b bs)
  obtain sz al where b: "b = (sz, al)" by (cases b)
  from Cons.prems have ok: "32 \<le> sz" "blocks_ok m (a + sz) al bs" by (auto simp: b)
  have t: "0 \<le> total bs" using ok total_nonneg by blast
  have wf: "nodes_wf (node_set (a + sz) bs)"
    using Cons.IH[OF ok(2)] Cons.prems ok by (simp add: b algebra_simps)
  have nb: "\<And>n c. (n, c) \<in> node_set (a + sz) bs \<Longrightarrow> a + sz + 8 \<le> n"
    using node_bounds[OF ok(2)] by blast
  show ?case
  proof (cases al)
    case True
    then show ?thesis using wf by (simp add: b)
  next
    case False
    have r: "0 < a + 8" "a + 8 + 16 \<le> 2 ^ 64" using Cons.prems ok t by (auto simp: b)
    show ?thesis
      unfolding nodes_wf_def
    proof (intro allI impI)
      fix n c assume nc: "(n, c) \<in> node_set a (b # bs)"
      show "0 < n \<and> n + 16 \<le> 2 ^ 64 \<and> 0 \<le> c \<and> c < 16 \<and>
        (\<forall>n' c'. (n', c') \<in> node_set a (b # bs) \<longrightarrow> n = n' \<and> c = c' \<or> n + 16 \<le> n' \<or> n' + 16 \<le> n)"
      proof (cases "(n, c) \<in> node_set (a + sz) bs")
        case True
        have "\<forall>n' c'. (n', c') \<in> node_set a (b # bs) \<longrightarrow> n = n' \<and> c = c' \<or> n + 16 \<le> n' \<or> n' + 16 \<le> n"
        proof (intro allI impI)
          fix n' c' assume "(n', c') \<in> node_set a (b # bs)"
          then consider "n' = a + 8" | "(n', c') \<in> node_set (a + sz) bs"
            by (auto simp: b False)
          then show "n = n' \<and> c = c' \<or> n + 16 \<le> n' \<or> n' + 16 \<le> n"
          proof cases
            case 1
            then show ?thesis using nb[OF True] ok by simp
          next
            case 2
            then show ?thesis using wf True unfolding nodes_wf_def by blast
          qed
        qed
        moreover have "0 < n \<and> n + 16 \<le> 2 ^ 64 \<and> 0 \<le> c \<and> c < 16"
          using wf True unfolding nodes_wf_def by blast
        ultimately show ?thesis by blast
      next
        case F2: False
        with nc have e: "n = a + 8" "c = get_index (wp sz)" by (auto simp: b False)
        have "\<forall>n' c'. (n', c') \<in> node_set a (b # bs) \<longrightarrow> n = n' \<and> c = c' \<or> n + 16 \<le> n' \<or> n' + 16 \<le> n"
        proof (intro allI impI)
          fix n' c' assume "(n', c') \<in> node_set a (b # bs)"
          then consider "n' = a + 8 \<and> c' = get_index (wp sz)" | "(n', c') \<in> node_set (a + sz) bs"
            by (auto simp: b False)
          then show "n = n' \<and> c = c' \<or> n + 16 \<le> n' \<or> n' + 16 \<le> n"
          proof cases
            case 1
            then show ?thesis using e by simp
          next
            case 2
            then show ?thesis using nb[OF 2] ok e by simp
          qed
        qed
        then show ?thesis using e r get_index_range[of "wp sz"] by simp
      qed
    qed
  qed
qed

lemma frameD:
  "frame R m m' \<Longrightarrow> 0 \<le> b \<Longrightarrow> b + 8 \<le> 2 ^ 64 \<Longrightarrow>
     (\<And>lo hi. (lo, hi) \<in> R \<Longrightarrow> b + 8 \<le> lo \<or> hi \<le> b) \<Longrightarrow> rd m' b = rd m b"
  unfolding frame_def by blast

lemma blocks_ok_frame:
  assumes "blocks_ok m a pa bs" "0 \<le> a" "a + total bs \<le> 2 ^ 64" "frame R m m'"
    and "\<And>lo hi. (lo, hi) \<in> R \<Longrightarrow> hi \<le> a \<or> a + total bs \<le> lo \<or> inside a bs lo hi"
  shows "blocks_ok m' a pa bs"
  using assms
proof (induction bs arbitrary: a pa)
  case Nil
  then show ?case by simp
next
  case (Cons b bs)
  obtain sz al where b: "b = (sz, al)" by (cases b)
  from Cons.prems(1) have ok: "16 dvd sz" "32 \<le> sz" "rd m a = hdr sz pa al" "pa \<or> al"
    "al \<or> rd m (a + sz - 8) = wp sz" "blocks_ok m (a + sz) al bs" by (auto simp: b)
  have t: "0 \<le> total bs" using ok total_nonneg by blast
  have R: "hi \<le> a \<or> a + sz + total bs \<le> lo
      \<or> (a + 8 \<le> lo \<and> hi \<le> a + sz - (if al then 0 else 8)) \<or> inside (a + sz) bs lo hi"
    if "(lo, hi) \<in> R" for lo hi
    using Cons.prems(5)[OF that] by (cases al) (auto simp: b algebra_simps)
  have ib: "a + sz + 8 \<le> lo \<and> hi \<le> a + sz + total bs" if "inside (a + sz) bs lo hi" for lo hi
    using inside_bounds[OF ok(6) that] by simp
  have h: "rd m' a = rd m a"
  proof (rule frameD[OF Cons.prems(4)])
    show "0 \<le> a" by fact
    show "a + 8 \<le> 2 ^ 64" using Cons.prems(3) ok t by (simp add: b)
    fix lo hi assume "(lo, hi) \<in> R"
    from R[OF this] ib[of lo hi] ok(2) t show "a + 8 \<le> lo \<or> hi \<le> a" by auto
  qed
  have f: "rd m' (a + sz - 8) = rd m (a + sz - 8)" if "\<not> al"
  proof (rule frameD[OF Cons.prems(4)])
    show "0 \<le> a + sz - 8" using Cons.prems(2) ok by simp
    show "a + sz - 8 + 8 \<le> 2 ^ 64" using Cons.prems(3) ok t by (simp add: b)
    fix lo hi assume "(lo, hi) \<in> R"
    from R[OF this] ib[of lo hi] ok(2) t that
    show "a + sz - 8 + 8 \<le> lo \<or> hi \<le> a + sz - 8" by auto
  qed
  have tl: "blocks_ok m' (a + sz) al bs"
  proof (rule Cons.IH[OF ok(6) _ _ Cons.prems(4)])
    show "0 \<le> a + sz" using Cons.prems(2) ok by simp
    show "a + sz + total bs \<le> 2 ^ 64" using Cons.prems(3) by (simp add: b algebra_simps)
    fix lo hi assume "(lo, hi) \<in> R"
    from R[OF this] consider "hi \<le> a" | "a + sz + total bs \<le> lo"
      | "hi \<le> a + sz - (if al then 0 else 8)" | "inside (a + sz) bs lo hi" by blast
    then show "hi \<le> a + sz \<or> a + sz + total bs \<le> lo \<or> inside (a + sz) bs lo hi"
    proof cases
      case 1
      then show ?thesis using ok(2) by simp
    next
      case 2
      then show ?thesis by simp
    next
      case 3
      then have "hi \<le> a + sz" by (cases al) auto
      then show ?thesis by simp
    next
      case 4
      then show ?thesis by simp
    qed
  qed
  show ?case
  proof (cases al)
    case True
    then show ?thesis using ok h tl by (simp add: b)
  next
    case False
    then show ?thesis using ok h f[OF False] tl by (simp add: b)
  qed
qed

lemma links_ok_frame:
  assumes "links_ok m NS" "nodes_wf NS" "frame R m m'"
    and "\<And>n c lo hi. (n, c) \<in> NS \<Longrightarrow> (lo, hi) \<in> R \<Longrightarrow> hi \<le> n \<or> n + 16 \<le> lo"
  shows "links_ok m' NS"
proof -
  have e: "pv m' n = pv m n \<and> nx m' n = nx m n" if n: "(n, c) \<in> NS" for n c
  proof -
    have r: "0 < n" "n + 16 \<le> 2 ^ 64" using node_range[OF assms(2) n] by auto
    have "rd m' n = rd m n"
      using r assms(4)[OF n] by (intro frameD[OF assms(3)]) force+
    moreover have "rd m' (n + 8) = rd m (n + 8)"
      using r assms(4)[OF n] by (intro frameD[OF assms(3)]) force+
    ultimately show ?thesis by (simp add: pv_def nx_def node_prev_def node_next_def rd_def)
  qed
  show ?thesis
    unfolding links_ok_def
  proof (intro allI impI)
    fix n c assume n: "(n, c) \<in> NS"
    then have a: "(nx m n, c) \<in> NS" "(pv m n, c) \<in> NS" "pv m (nx m n) = n" "nx m (pv m n) = n"
      using assms(1) unfolding links_ok_def by blast+
    show "(nx m' n, c) \<in> NS \<and> (pv m' n, c) \<in> NS \<and> pv m' (nx m' n) = n \<and> nx m' (pv m' n) = n"
      using e[OF n] e[OF a(1)] e[OF a(2)] a by simp
  qed
qed

section \<open>The invariant under the extender\<close>

lemma frame_write1:
  "0 \<le> c \<Longrightarrow> c + 8 \<le> 2 ^ 64 \<Longrightarrow> frame {(c, c + 8)} m (write64 m (wp c) v)"
  by (rule frame_write[where lo = c and hi = "c + 8"]) auto

lemma frame_union:
  "frame R1 m m1 \<Longrightarrow> frame R2 m1 m2 \<Longrightarrow> frame (R1 \<union> R2) m m2"
  unfolding frame_def by (metis UnI1 UnI2)

lemma nodes_wf_subset: "nodes_wf NS \<Longrightarrow> NS' \<subseteq> NS \<Longrightarrow> nodes_wf NS'"
  unfolding nodes_wf_def by blast

lemma first_block_range: "24 \<le> first_block s"
  by (simp add: first_block_def)

lemma heap_rep_range:
  assumes "heap_rep s bs NS"
  shows "first_block s + total bs + 8 < 2 ^ 64" "0 \<le> total bs"
proof -
  have "uint (heap_brk s) < 2 ^ 64" using uint_lt2p[of "heap_brk s"] by simp
  then show "first_block s + total bs + 8 < 2 ^ 64" using assms by (simp add: heap_rep_def)
  show "0 \<le> total bs" using assms total_nonneg by (auto simp: heap_rep_def)
qed


section \<open>Rewriting a segment of the heap\<close>

lemma tail_ok_append:
  "tail_ok m a pa (xs @ ys) = (blocks_ok m a pa xs \<and> tail_ok m (a + total xs) (last_alloc pa xs) ys)"
  by (auto simp: tail_ok_def blocks_ok_append total_append last_alloc_append algebra_simps)

lemma heap_rep_tail:
  "heap_rep s bs NS = (uint (heap_brk s) = first_block s + total bs + 8
      \<and> rd (mem s) (first_block s - 16) = 17 \<and> tail_ok (mem s) (first_block s) True bs
      \<and> links_ok (mem s) NS \<and> heads_ok (head s) NS)"
  by (auto simp: heap_rep_def tail_ok_def)

lemma tail_next_word: "tail_ok m a pa bs \<Longrightarrow> rd m a = next_word bs pa"
  by (cases bs) (auto simp: tail_ok_def)

lemma tail_next_dvd: "tail_ok m a pa bs \<Longrightarrow> 16 dvd next_size bs"
  by (cases bs) (auto simp: tail_ok_def)

lemma next_word_hdr: "next_word bs pa = hdr (next_size bs) pa (next_alloc bs)"
  by (cases bs) auto

lemma tail_ok_frame:
  assumes t: "tail_ok m a pa bs" and r: "0 \<le> a" "a + total bs + 8 \<le> 2 ^ 64" and f: "frame R m m'"
    and R: "\<And>lo hi. (lo, hi) \<in> R \<Longrightarrow> hi \<le> a \<or> inside a bs lo hi"
  shows "tail_ok m' a pa bs"
proof -
  have bl: "blocks_ok m a pa bs" using t by (simp add: tail_ok_def)
  have tn: "0 \<le> total bs" using total_nonneg[OF bl] .
  have "blocks_ok m' a pa bs"
    using R r by (intro blocks_ok_frame[OF bl _ _ f]) auto
  moreover have "rd m' (a + total bs) = rd m (a + total bs)"
  proof (rule frameD[OF f])
    show "0 \<le> a + total bs" using r tn by simp
    show "a + total bs + 8 \<le> 2 ^ 64" using r by simp
    fix lo hi assume "(lo, hi) \<in> R"
    from R[OF this] inside_bounds[OF bl, of lo hi] tn
    show "a + total bs + 8 \<le> lo \<or> hi \<le> a + total bs" by auto
  qed
  ultimately show ?thesis using t by (simp add: tail_ok_def)
qed

lemma tail_ok_reflag:
  assumes t: "tail_ok m a pa bs" and r: "0 \<le> a" "a + total bs + 8 \<le> 2 ^ 64" and f: "frame R m m'"
    and R: "\<And>lo hi. (lo, hi) \<in> R \<Longrightarrow> hi \<le> a + 8"
    and w: "rd m' a = next_word bs pa'" and ok: "pa' \<or> next_alloc bs"
  shows "tail_ok m' a pa' bs"
proof (cases bs)
  case Nil
  then show ?thesis using w by (simp add: tail_ok_def)
next
  case (Cons b bs')
  obtain sz al where b: "b = (sz, al)" by (cases b)
  from t have ok0: "16 dvd sz" "32 \<le> sz" "al \<or> rd m (a + sz - 8) = wp sz"
    and tl: "tail_ok m (a + sz) al bs'"
    by (auto simp: tail_ok_def Cons b algebra_simps)
  have tn: "0 \<le> total bs'" using tl total_nonneg by (auto simp: tail_ok_def)
  have tl': "tail_ok m' (a + sz) al bs'"
  proof (rule tail_ok_frame[OF tl _ _ f])
    show "0 \<le> a + sz" using r ok0 by simp
    show "a + sz + total bs' + 8 \<le> 2 ^ 64" using r by (simp add: Cons b algebra_simps)
    fix lo hi assume "(lo, hi) \<in> R"
    from R[OF this] ok0 show "hi \<le> a + sz \<or> inside (a + sz) bs' lo hi" by simp
  qed
  have ft: "rd m' (a + sz - 8) = rd m (a + sz - 8)"
  proof (rule frameD[OF f])
    show "0 \<le> a + sz - 8" using r ok0 by simp
    show "a + sz - 8 + 8 \<le> 2 ^ 64" using r tn by (simp add: Cons b)
    fix lo hi assume "(lo, hi) \<in> R"
    from R[OF this] ok0 show "a + sz - 8 + 8 \<le> lo \<or> hi \<le> a + sz - 8" by simp
  qed
  show ?thesis
    using ok0 tl' ft w ok by (auto simp: tail_ok_def Cons b algebra_simps)
qed


lemma node_decomp:
  "(x, c) \<in> node_set a bs \<Longrightarrow>
     \<exists>pre sz post. bs = pre @ (sz, False) # post \<and> x = a + total pre + 8 \<and> c = get_index (wp sz)"
proof (induction bs arbitrary: a)
  case Nil
  then show ?case by simp
next
  case (Cons b bs)
  obtain sz al where b: "b = (sz, al)" by (cases b)
  from Cons.prems consider "x = a + 8 \<and> c = get_index (wp sz) \<and> \<not> al" | "(x, c) \<in> node_set (a + sz) bs"
    by (auto simp: b split: if_splits)
  then show ?case
  proof cases
    case 1
    then have "b # bs = [] @ (sz, False) # bs \<and> x = a + total [] + 8 \<and> c = get_index (wp sz)"
      by (simp add: b)
    then show ?thesis by blast
  next
    case 2
    from Cons.IH[OF 2] obtain pre sz' post where
      "bs = pre @ (sz', False) # post" "x = a + sz + total pre + 8" "c = get_index (wp sz')"
      by blast
    then have "b # bs = (b # pre) @ (sz', False) # post \<and> x = a + total (b # pre) + 8
        \<and> c = get_index (wp sz')" by (simp add: b)
    then show ?thesis by blast
  qed
qed

lemma node_set_mid:
  assumes "blocks_ok m a pa (pre @ (sz, False) # post)"
  shows "(a + total pre + 8, get_index (wp sz)) \<in> node_set a (pre @ (sz, False) # post)"
    and "(a + total pre + 8, c) \<notin> node_set a pre"
    and "(a + total pre + 8, c) \<notin> node_set (a + total pre + sz) post"
    and "node_set a (pre @ (sz, False) # post) - {(a + total pre + 8, get_index (wp sz))}
          = node_set a pre \<union> node_set (a + total pre + sz) post"
proof -
  have bp: "blocks_ok m a pa pre" and bq: "blocks_ok m (a + total pre + sz) False post"
    using assms by (auto simp: blocks_ok_append algebra_simps)
  show 1: "(a + total pre + 8, get_index (wp sz)) \<in> node_set a (pre @ (sz, False) # post)"
    by (simp add: node_set_append)
  show 2: "(a + total pre + 8, c) \<notin> node_set a pre" for c
    using node_bounds[OF bp] by force
  show 3: "(a + total pre + 8, c) \<notin> node_set (a + total pre + sz) post" for c
    using node_bounds[OF bq] assms by (force simp: blocks_ok_append)
  show "node_set a (pre @ (sz, False) # post) - {(a + total pre + 8, get_index (wp sz))}
          = node_set a pre \<union> node_set (a + total pre + sz) post"
    using 2 3 by (auto simp: node_set_append algebra_simps)
qed

lemma heap_rep_fields:
  "heap_lo s' = heap_lo s \<Longrightarrow> heap_brk s' = heap_brk s \<Longrightarrow> mem s' = mem s \<Longrightarrow> head s' = head s
    \<Longrightarrow> heap_rep s' bs NS = heap_rep s bs NS"
  by (simp add: heap_rep_def first_block_def)

lemma segment_rewrite:
  assumes rep: "heap_rep s (pre @ mid @ post) NS"
    and a: "a = first_block s + total pre" and e: "e = a + total mid"
    and NS: "NS \<subseteq> node_set (first_block s) pre \<union> node_set e post"
    and fr: "frame R (mem s) m'"
    and R: "\<And>lo hi. (lo, hi) \<in> R \<Longrightarrow> a \<le> lo \<and> hi \<le> e + 8"
    and mid': "blocks_ok m' a (last_alloc True pre) mid'" "total mid' = total mid"
    and nw: "rd m' e = next_word post (last_alloc (last_alloc True pre) mid')"
    and na: "last_alloc (last_alloc True pre) mid' \<or> next_alloc post"
  shows "heap_rep (s\<lparr>mem := m'\<rparr>) (pre @ mid' @ post) NS"
proof -
  define a0 where "a0 = first_block s"
  define m where "m = mem s"
  define pa where "pa = last_alloc True pre"
  have a24: "24 \<le> a0" using first_block_range by (simp add: a0_def)
  have brk: "uint (heap_brk s) = a0 + total (pre @ mid @ post) + 8"
    and pro: "rd m (a0 - 16) = 17"
    and bp: "blocks_ok m a0 True pre" and bm: "blocks_ok m a pa mid"
    and tl: "tail_ok m e (last_alloc pa mid) post"
    and lk: "links_ok m NS" and hd: "heads_ok (head s) NS"
    using rep by (simp_all add: heap_rep_tail tail_ok_append a0_def m_def a e pa_def algebra_simps)
  have top: "a0 + total (pre @ mid @ post) + 8 < 2 ^ 64"
    using heap_rep_range[OF rep] by (simp add: a0_def)
  have bq: "blocks_ok m e (last_alloc pa mid) post" using tl by (simp add: tail_ok_def)
  have tn: "0 \<le> total pre" "0 \<le> total mid" "0 \<le> total post"
    using total_nonneg bp bm bq by blast+
  have tt: "total (pre @ mid @ post) = total pre + total mid + total post"
    by (simp add: total_append)
  have ae: "a0 \<le> a" "a \<le> e" "e + total post + 8 < 2 ^ 64"
    using tn top by (simp_all add: a e a0_def tt)
  have bp': "blocks_ok m' a0 True pre"
  proof (rule blocks_ok_frame[OF bp _ _ fr[folded m_def]])
    show "0 \<le> a0" using a24 by simp
    show "a0 + total pre \<le> 2 ^ 64" using ae tn by (simp add: a a0_def)
    fix lo hi assume "(lo, hi) \<in> R"
    from R[OF this] show "hi \<le> a0 \<or> a0 + total pre \<le> lo \<or> inside a0 pre lo hi"
      by (simp add: a a0_def)
  qed
  have tl': "tail_ok m' e (last_alloc pa mid') post"
  proof (rule tail_ok_reflag[OF tl _ _ fr[folded m_def]])
    show "0 \<le> e" using a24 ae by simp
    show "e + total post + 8 \<le> 2 ^ 64" using ae by simp
    show "rd m' e = next_word post (last_alloc pa mid')" using nw by (simp add: pa_def)
    show "last_alloc pa mid' \<or> next_alloc post" using na by (simp add: pa_def)
    fix lo hi assume "(lo, hi) \<in> R"
    from R[OF this] show "hi \<le> e + 8" by simp
  qed
  have pro': "rd m' (a0 - 16) = 17"
  proof -
    have "rd m' (a0 - 16) = rd m (a0 - 16)"
    proof (rule frameD[OF fr[folded m_def]])
      show "0 \<le> a0 - 16" using a24 by simp
      show "a0 - 16 + 8 \<le> 2 ^ 64" using ae tn by simp
      fix lo hi assume "(lo, hi) \<in> R"
      from R[OF this] ae show "a0 - 16 + 8 \<le> lo \<or> hi \<le> a0 - 16" by simp
    qed
    then show ?thesis using pro by simp
  qed
  have ball: "blocks_ok m a0 True (pre @ mid @ post)"
    using bp bm bq by (simp add: blocks_ok_append a e pa_def last_alloc_append a0_def)
  have wfall: "nodes_wf (node_set a0 (pre @ mid @ post))"
    using a24 top by (intro nodes_wf_node_set[OF ball]) auto
  have "NS \<subseteq> node_set a0 (pre @ mid @ post)"
    using NS by (auto simp: node_set_append a0_def a e algebra_simps)
  then have wf: "nodes_wf NS" using nodes_wf_subset[OF wfall] by blast
  have lk': "links_ok m' NS"
  proof (rule links_ok_frame[OF lk wf fr[folded m_def]])
    fix n c lo hi assume n: "(n, c) \<in> NS" and r: "(lo, hi) \<in> R"
    from n NS consider "(n, c) \<in> node_set a0 pre" | "(n, c) \<in> node_set e post"
      by (auto simp: a0_def)
    then show "hi \<le> n \<or> n + 16 \<le> lo"
    proof cases
      case 1
      from node_bounds[OF bp 1] R[OF r] show ?thesis by (simp add: a a0_def)
    next
      case 2
      from node_bounds[OF bq 2] R[OF r] show ?thesis by simp
    qed
  qed
  have fb: "first_block (s\<lparr>mem := m'\<rparr>) = a0" by (simp add: first_block_def a0_def)
  show ?thesis
    unfolding heap_rep_tail fb tail_ok_append
    using brk pro' bp' mid' tl' lk' hd
    by (simp add: total_append a e pa_def a0_def algebra_simps)
qed

lemma removenode_heap:
  assumes rep: "heap_rep s bs NS" and sub: "NS \<subseteq> node_set (first_block s) bs" and x: "(x, c) \<in> NS"
  shows "heap_rep (removenode s (wp x) c) bs (NS - {(x, c)})
     \<and> heap_lo (removenode s (wp x) c) = heap_lo s
     \<and> heap_brk (removenode s (wp x) c) = heap_brk s
     \<and> heap_max (removenode s (wp x) c) = heap_max s"
proof -
  define a0 where "a0 = first_block s"
  define s' where "s' = removenode s (wp x) c"
  have a24: "24 \<le> a0" using first_block_range by (simp add: a0_def)
  have brk: "uint (heap_brk s) = a0 + total bs + 8"
    and pro: "rd (mem s) (a0 - 16) = 17"
    and tl: "tail_ok (mem s) a0 True bs"
    and lk: "links_ok (mem s) NS" and hd: "heads_ok (head s) NS"
    using rep by (simp_all add: heap_rep_tail a0_def)
  have bl: "blocks_ok (mem s) a0 True bs" using tl by (simp add: tail_ok_def)
  have top: "a0 + total bs + 8 < 2 ^ 64" "0 \<le> total bs"
    using heap_rep_range[OF rep] by (simp_all add: a0_def)
  have wf: "nodes_wf NS"
    using nodes_wf_subset[OF nodes_wf_node_set[OF bl] sub[folded a0_def]] a24 top by simp
  from removenode_ok[OF lk hd wf x]
  have r: "links_ok (mem s') (NS - {(x, c)})" "heads_ok (head s') (NS - {(x, c)})"
    "frame (link_ranges NS) (mem s) (mem s')" "heap_lo s' = heap_lo s" "heap_brk s' = heap_brk s"
    "heap_max s' = heap_max s"
    by (simp_all add: s'_def)
  have ins: "inside a0 bs lo hi \<and> a0 + 8 \<le> lo" if "(lo, hi) \<in> link_ranges NS" for lo hi
  proof -
    from that obtain n k where nk: "(n, k) \<in> NS" "lo = n" "hi = n + 16"
      by (auto simp: link_ranges_def)
    then have "(n, k) \<in> node_set a0 bs" using sub by (auto simp: a0_def)
    from node_inside[OF bl this] node_bounds[OF bl this] nk show ?thesis by simp
  qed
  have tl': "tail_ok (mem s') a0 True bs"
    using ins a24 top by (intro tail_ok_frame[OF tl _ _ r(3)]) auto
  have "rd (mem s') (a0 - 16) = rd (mem s) (a0 - 16)"
  proof (rule frameD[OF r(3)])
    show "0 \<le> a0 - 16" using a24 by simp
    show "a0 - 16 + 8 \<le> 2 ^ 64" using top by simp
    fix lo hi assume "(lo, hi) \<in> link_ranges NS"
    from ins[OF this] show "a0 - 16 + 8 \<le> lo \<or> hi \<le> a0 - 16" by simp
  qed
  then have pro': "rd (mem s') (a0 - 16) = 17" using pro by simp
  have fb: "first_block s' = a0" using r(4) by (simp add: first_block_def a0_def)
  have "heap_rep s' bs (NS - {(x, c)})"
    unfolding heap_rep_tail fb using brk pro' tl' r by simp
  then show ?thesis using r by (simp add: s'_def)
qed

lemma node_header:
  assumes "blocks_ok m a pa bs" "(x, c) \<in> node_set a bs"
  shows "\<exists>sz pa'. rd m (x - 8) = hdr sz pa' False \<and> 16 dvd sz \<and> c = get_index (wp sz)"
proof -
  from node_decomp[OF assms(2)] obtain pre sz post where
    d: "bs = pre @ (sz, False) # post" "x = a + total pre + 8" "c = get_index (wp sz)" by blast
  from assms(1) have "rd m (a + total pre) = hdr sz (last_alloc pa pre) False \<and> 16 dvd sz"
    by (simp add: d blocks_ok_append)
  then show ?thesis using d by auto
qed

lemma addnode_heap:
  assumes rep: "heap_rep s bs NS" and ns: "node_set (first_block s) bs = insert (x, c) NS"
    and new: "(x, c) \<notin> NS"
  shows "heap_ok (addnode s (wp x)) bs
     \<and> heap_lo (addnode s (wp x)) = heap_lo s
     \<and> heap_brk (addnode s (wp x)) = heap_brk s
     \<and> heap_max (addnode s (wp x)) = heap_max s
     \<and> head (addnode s (wp x)) ! nat c \<noteq> 0
     \<and> (head (addnode s (wp x)) ! nat c = wp x
        \<or> node_prev (mem (addnode s (wp x))) (head (addnode s (wp x)) ! nat c) = wp x)"
proof -
  define a0 where "a0 = first_block s"
  define s' where "s' = addnode s (wp x)"
  have a24: "24 \<le> a0" using first_block_range by (simp add: a0_def)
  have brk: "uint (heap_brk s) = a0 + total bs + 8"
    and pro: "rd (mem s) (a0 - 16) = 17"
    and tl: "tail_ok (mem s) a0 True bs"
    and lk: "links_ok (mem s) NS" and hd: "heads_ok (head s) NS"
    using rep by (simp_all add: heap_rep_tail a0_def)
  have bl: "blocks_ok (mem s) a0 True bs" using tl by (simp add: tail_ok_def)
  have top: "a0 + total bs + 8 < 2 ^ 64" "0 \<le> total bs"
    using heap_rep_range[OF rep] by (simp_all add: a0_def)
  have wf: "nodes_wf (insert (x, c) NS)"
    using nodes_wf_node_set[OF bl] a24 top ns by (simp add: a0_def)
  have xin: "(x, c) \<in> node_set a0 bs" using ns by (simp add: a0_def)
  from node_header[OF bl xin] obtain sz pa' where
    h: "rd (mem s) (x - 8) = hdr sz pa' False" "16 dvd sz" "c = get_index (wp sz)" by blast
  have "get_size (mem s) (wp (x - 8)) = wp sz"
    using get_size_hdr[OF h(2), of "mem s" "wp (x - 8)"] h(1) by (simp add: rd_def)
  then have cls: "get_index (get_size (mem s) (n2h (wp x))) = c"
    using h(3) by (simp add: n2h_def decr_def)
  from addnode_ok[OF lk hd wf new cls]
  have r: "links_ok (mem s') (insert (x, c) NS)" "heads_ok (head s') (insert (x, c) NS)"
    "frame (link_ranges (insert (x, c) NS)) (mem s) (mem s')" "heap_lo s' = heap_lo s"
    "heap_brk s' = heap_brk s" "heap_max s' = heap_max s" "head s' ! nat c \<noteq> 0"
    "head s' ! nat c = wp x \<or> node_prev (mem s') (head s' ! nat c) = wp x"
    by (simp_all add: s'_def)
  have ins: "inside a0 bs lo hi \<and> a0 + 8 \<le> lo" if "(lo, hi) \<in> link_ranges (insert (x, c) NS)" for lo hi
  proof -
    from that obtain n k where nk: "(n, k) \<in> insert (x, c) NS" "lo = n" "hi = n + 16"
      unfolding link_ranges_def by auto
    then have "(n, k) \<in> node_set a0 bs" using ns by (simp add: a0_def)
    from node_inside[OF bl this] node_bounds[OF bl this] nk show ?thesis by simp
  qed
  have tl': "tail_ok (mem s') a0 True bs"
    using ins a24 top by (intro tail_ok_frame[OF tl _ _ r(3)]) auto
  have "rd (mem s') (a0 - 16) = rd (mem s) (a0 - 16)"
  proof (rule frameD[OF r(3)])
    show "0 \<le> a0 - 16" using a24 by simp
    show "a0 - 16 + 8 \<le> 2 ^ 64" using top by simp
    fix lo hi assume "(lo, hi) \<in> link_ranges (insert (x, c) NS)"
    from ins[OF this] show "a0 - 16 + 8 \<le> lo \<or> hi \<le> a0 - 16" by simp
  qed
  then have pro': "rd (mem s') (a0 - 16) = 17" using pro by simp
  have fb: "first_block s' = a0" using r(4) by (simp add: first_block_def a0_def)
  have "heap_ok s' bs"
    unfolding heap_ok_def heap_rep_tail fb using brk pro' tl' r ns by (simp add: a0_def)
  then show ?thesis using r by (simp add: s'_def)
qed

section \<open>Placement\<close>

lemma tail_false_next_alloc: "tail_ok m a False bs \<Longrightarrow> next_alloc bs"
  by (cases bs) (auto simp: tail_ok_def)

lemma next_word_set: "16 dvd next_size bs \<Longrightarrow> next_word bs pa OR 0x2 = next_word bs True"
  by (simp only: next_word_hdr hdr_set)


lemma word_le_wp: "0 \<le> x \<Longrightarrow> x < 2 ^ 64 \<Longrightarrow> 0 \<le> y \<Longrightarrow> y < 2 ^ 64 \<Longrightarrow> (wp x \<le> wp y) = (x \<le> y)"
  by (simp add: word_le_def uint_wp)

lemma first_block_mem [simp]: "first_block (s\<lparr>mem := m\<rparr>) = first_block s"
  by (simp add: first_block_def)

lemma make_h_11: "make_h m p (wp sz) 1 1 = write64 m p (hdr sz True True)"
  using make_h_hdr[of m p sz True True] by (simp add: flag_def)

lemma make_h_10: "make_h m p (wp sz) 1 0 = write64 m p (hdr sz True False)"
  using make_h_hdr[of m p sz True False] by (simp add: flag_def)

lemma make_h_flag0: "make_h m p (wp sz) (flag pa) 0 = write64 m p (hdr sz pa False)"
  using make_h_hdr[of m p sz pa False] by (simp add: flag_def)

lemmas wp_fold = of_int_add[symmetric] of_int_diff[symmetric] wp_add_num wp_sub_num

lemma frame2: "frame {r1} m m1 \<Longrightarrow> frame {r2} m1 m2 \<Longrightarrow> frame {r1, r2} m m2"
  by (rule frame_mono[OF frame_union]) auto

lemma frame3:
  "frame {r1} m m1 \<Longrightarrow> frame {r2} m1 m2 \<Longrightarrow> frame {r3} m2 m3 \<Longrightarrow> frame {r1, r2, r3} m m3"
  by (rule frame_mono[OF frame_union[OF frame_union]]) auto

lemma heap_rep_split:
  "heap_rep s (pre @ mid @ post) NS =
     (uint (heap_brk s) = first_block s + total (pre @ mid @ post) + 8
      \<and> rd (mem s) (first_block s - 16) = 17
      \<and> blocks_ok (mem s) (first_block s) True pre
      \<and> blocks_ok (mem s) (first_block s + total pre) (last_alloc True pre) mid
      \<and> tail_ok (mem s) (first_block s + total pre + total mid)
            (last_alloc (last_alloc True pre) mid) post
      \<and> links_ok (mem s) NS \<and> heads_ok (head s) NS)"
  by (simp add: heap_rep_tail tail_ok_append add.assoc)

lemma allocate_ok:
  assumes rep: "heap_rep s (pre @ (S, False) # post) NS"
    and a: "a = first_block s + total pre"
    and NS: "NS = node_set (first_block s) pre \<union> node_set (a + S) post"
    and n: "16 dvd n" "32 \<le> n" "n \<le> S"
  shows "\<exists>s'. allocate s (wp a) (wp n) = (wp (a + 8), s')
     \<and> heap_lo s' = heap_lo s \<and> heap_brk s' = heap_brk s \<and> heap_max s' = heap_max s
     \<and> (if 32 \<le> S - n
         then heap_ok s' (pre @ (n, True) # (S - n, False) # post)
              \<and> head s' ! nat (get_index (wp (S - n))) \<noteq> 0
              \<and> (head s' ! nat (get_index (wp (S - n))) = wp (a + n + 8)
                  \<or> node_prev (mem s') (head s' ! nat (get_index (wp (S - n)))) = wp (a + n + 8))
         else heap_ok s' (pre @ (S, True) # post))"
proof -
  define a0 where "a0 = first_block s"
  define m where "m = mem s"
  define pa where "pa = last_alloc True pre"
  define e where "e = a + S"
  have a24: "24 \<le> a0" using first_block_range by (simp add: a0_def)
  have rep': "heap_rep s (pre @ [(S, False)] @ post) NS" using rep by simp
  have bp: "blocks_ok m a0 True pre" and S: "16 dvd S" "32 \<le> S"
    and hS: "rd m a = hdr S pa False" and pa: "pa" and fS: "rd m (a + S - 8) = wp S"
    and tl: "tail_ok m e False post"
    using rep'[unfolded heap_rep_split] by (auto simp: a0_def m_def a pa_def e_def)
  have top: "a0 + total (pre @ (S, False) # post) + 8 < 2 ^ 64"
    using heap_rep_range[OF rep] by (simp add: a0_def)
  have bq: "blocks_ok m e False post" using tl by (simp add: tail_ok_def)
  have tn: "0 \<le> total pre" "0 \<le> total post" using total_nonneg bp bq by blast+
  have rng: "24 \<le> a" "e + 8 < 2 ^ 64" "e + total post + 8 < 2 ^ 64"
    using a24 tn top S by (simp_all add: a e_def a0_def total_append)
  have ne: "rd m e = next_word post False" using tail_next_word[OF tl] .
  have nd: "16 dvd next_size post" using tail_next_dvd[OF tl] .
  have na: "next_alloc post" using tail_false_next_alloc[OF tl] .
  have gs: "get_size m (wp a) = wp S"
    using get_size_hdr[OF S(1), of m "wp a"] hS by (simp add: rd_def)
  have gp: "get_prev_alloc m (wp a) = 1"
    using get_prev_alloc_hdr[OF S(1), of m "wp a" pa False] hS pa by (simp add: rd_def flag_def)
  have cmp: "((32 :: 64 word) \<le> wp (S - n)) = (32 \<le> S - n)"
  proof -
    have "(wp 32 \<le> (wp (S - n) :: 64 word)) = (32 \<le> S - n)"
      using n rng S by (intro word_le_wp) (auto simp: e_def)
    then show ?thesis by (simp del: of_int_diff)
  qed
  show ?thesis
  proof (cases "32 \<le> S - n")
    case True
    define m1 where "m1 = write64 m (wp a) (hdr n True True)"
    define m2 where "m2 = write64 m1 (wp (a + n)) (hdr (S - n) True False)"
    define m3 where "m3 = write64 m2 (wp (a + (S - 8))) (wp (S - n))"
    define s3 where "s3 = s\<lparr>mem := m3\<rparr>"
    define x where "x = a + n + 8"
    define c where "c = get_index (wp (S - n))"
    have ex: "allocate s (wp a) (wp n) = (wp (a + 8), addnode s3 (wp x))"
      using True
      by (simp add: allocate_def Let_def gs[unfolded m_def] gp[unfolded m_def] incr_def get_f_def
          h2n_def m1_def m2_def m3_def s3_def x_def m_def cmp make_h_11 make_h_10 make_f_free
          wp_fold del: of_int_add of_int_diff)
    have f1: "frame {(a, a + 8)} m m1"
      unfolding m1_def using rng S by (intro frame_write1) (auto simp: e_def)
    have f2: "frame {(a + n, a + n + 8)} m1 m2"
      unfolding m2_def using rng n S by (intro frame_write1) (auto simp: e_def)
    have f3: "frame {(a + (S - 8), a + (S - 8) + 8)} m2 m3"
      unfolding m3_def using rng n S by (intro frame_write1) (auto simp: e_def)
    have f: "frame {(a, a + 8), (a + n, a + n + 8), (a + (S - 8), a + (S - 8) + 8)} m m3"
      by (rule frame3[OF f1 f2 f3])
    have r3: "rd m3 (a + (S - 8)) = wp (S - n)" by (simp only: m3_def rd_wr_same)
    have r2: "rd m3 (a + n) = hdr (S - n) True False"
    proof -
      have "rd m3 (a + n) = rd m2 (a + n)" unfolding m3_def
        using rng n S True by (intro rd_wr_other) (auto simp: e_def)
      then show ?thesis by (simp only: m2_def rd_wr_same)
    qed
    have r1: "rd m3 a = hdr n True True"
    proof -
      have "rd m3 a = rd m2 a" unfolding m3_def
        using rng n S True by (intro rd_wr_other) (auto simp: e_def)
      also have "\<dots> = rd m1 a" unfolding m2_def
        using rng n S True by (intro rd_wr_other) (auto simp: e_def)
      finally show ?thesis by (simp only: m1_def rd_wr_same)
    qed
    have re: "rd m3 e = next_word post False"
    proof -
      have "rd m3 e = rd m e"
      proof (rule frameD[OF f])
        show "0 \<le> e" "e + 8 \<le> 2 ^ 64" using rng S by (auto simp: e_def)
        fix lo hi assume "(lo, hi) \<in> {(a, a + 8), (a + n, a + n + 8), (a + (S - 8), a + (S - 8) + 8)}"
        then have "hi \<le> e" using n S True by (auto simp: e_def)
        then show "e + 8 \<le> lo \<or> hi \<le> e" by simp
      qed
      then show ?thesis using ne by simp
    qed
    have mid': "blocks_ok m3 a (last_alloc True pre) [(n, True), (S - n, False)]"
      using n S True r1 r2 r3 pa by (simp add: pa_def algebra_simps)
    have rep3: "heap_rep s3 (pre @ [(n, True), (S - n, False)] @ post) NS"
      unfolding s3_def
    proof (rule segment_rewrite[OF rep' a _ _ f[unfolded m_def]])
      show "a + total [(S, False)] = a + total [(S, False)]" by simp
      show "NS \<subseteq> node_set (first_block s) pre \<union> node_set (a + total [(S, False)]) post"
        using NS by simp
      show "blocks_ok m3 a (last_alloc True pre) [(n, True), (S - n, False)]" by (rule mid')
      show "total [(n, True), (S - n, False)] = total [(S, False)]" by simp
      show "rd m3 (a + total [(S, False)]) =
          next_word post (last_alloc (last_alloc True pre) [(n, True), (S - n, False)])"
        using re by (simp add: e_def)
      show "last_alloc (last_alloc True pre) [(n, True), (S - n, False)] \<or> next_alloc post"
        using na by simp
      fix lo hi assume "(lo, hi) \<in> {(a, a + 8), (a + n, a + n + 8), (a + (S - 8), a + (S - 8) + 8)}"
      then show "a \<le> lo \<and> hi \<le> a + total [(S, False)] + 8" using n S True by auto
    qed
    have ball: "blocks_ok m3 a0 True ((pre @ [(n, True)]) @ (S - n, False) # post)"
      using rep3 by (simp add: heap_rep_def s3_def a0_def)
    have tp: "a0 + total (pre @ [(n, True)]) = a + n" by (simp add: total_append a a0_def)
    have "node_set a ((n, True) # (S - n, False) # post)
        = insert (x, c) (node_set (a + n + (S - n)) post)"
      by (simp add: x_def c_def)
    moreover have "a + n + (S - n) = a + S" by simp
    ultimately have "node_set a ([(n, True), (S - n, False)] @ post)
        = insert (x, c) (node_set (a + S) post)" by simp
    then have ns: "node_set (first_block s3) (pre @ [(n, True), (S - n, False)] @ post) = insert (x, c) NS"
      unfolding node_set_append s3_def first_block_mem a[symmetric] NS by blast
    have "a0 + total (pre @ [(n, True)]) + (S - n) = a + S" using tp by simp
    then have "(x, c) \<notin> node_set a0 (pre @ [(n, True)])" "(x, c) \<notin> node_set (a + S) post"
      using node_set_mid(2)[OF ball, of c] node_set_mid(3)[OF ball, of c]
      by (simp_all add: tp x_def)
    then have new: "(x, c) \<notin> NS"
      unfolding NS by (simp add: node_set_append a0_def)
    from addnode_heap[OF rep3 ns new]
    have "heap_ok (addnode s3 (wp x)) (pre @ (n, True) # (S - n, False) # post)
      \<and> heap_lo (addnode s3 (wp x)) = heap_lo s \<and> heap_brk (addnode s3 (wp x)) = heap_brk s
      \<and> heap_max (addnode s3 (wp x)) = heap_max s
      \<and> head (addnode s3 (wp x)) ! nat c \<noteq> 0
      \<and> (head (addnode s3 (wp x)) ! nat c = wp x
          \<or> node_prev (mem (addnode s3 (wp x))) (head (addnode s3 (wp x)) ! nat c) = wp x)"
      by (simp add: s3_def)
    then show ?thesis using ex True by (simp add: x_def c_def)
  next
    case False
    define m1 where "m1 = write64 m (wp a) (hdr S True True)"
    define m2 where "m2 = write64 m1 (wp e) (next_word post True)"
    define s2 where "s2 = s\<lparr>mem := m2\<rparr>"
    have f1: "frame {(a, a + 8)} m m1"
      unfolding m1_def using rng S by (intro frame_write1) (auto simp: e_def)
    have f2: "frame {(e, e + 8)} m1 m2"
      unfolding m2_def using rng S by (intro frame_write1) (auto simp: e_def)
    have f: "frame {(a, a + 8), (e, e + 8)} m m2"
      by (rule frame2[OF f1 f2])
    have "rd m1 e = rd m e" unfolding m1_def
      using rng S by (intro rd_wr_other) (auto simp: e_def)
    then have "read64 m1 (wp e) OR 0x2 = next_word post True"
      using ne next_word_set[OF nd, of False] by (simp only: rd_def)
    then have sp: "snd (set_prev_alloc m1 (wp e)) = m2"
      by (simp only: set_prev_alloc_def Let_def snd_conv m2_def)
    have ex: "allocate s (wp a) (wp n) = (wp (a + 8), s2)"
      using False sp
      by (simp add: allocate_def Let_def gs[unfolded m_def] gp[unfolded m_def] incr_def
          m1_def s2_def m_def e_def cmp make_h_11 wp_fold del: of_int_add of_int_diff)
    have r2: "rd m2 e = next_word post True" by (simp only: m2_def rd_wr_same)
    have r1: "rd m2 a = hdr S True True"
    proof -
      have "rd m2 a = rd m1 a" unfolding m2_def
        using rng S by (intro rd_wr_other) (auto simp: e_def)
      then show ?thesis by (simp only: m1_def rd_wr_same)
    qed
    have rep2: "heap_rep s2 (pre @ [(S, True)] @ post) NS"
      unfolding s2_def
    proof (rule segment_rewrite[OF rep' a _ _ f[unfolded m_def]])
      show "a + total [(S, False)] = a + total [(S, False)]" by simp
      show "NS \<subseteq> node_set (first_block s) pre \<union> node_set (a + total [(S, False)]) post"
        using NS by simp
      show "blocks_ok m2 a (last_alloc True pre) [(S, True)]" using S r1 pa by (simp add: pa_def)
      show "total [(S, True)] = total [(S, False)]" by simp
      show "rd m2 (a + total [(S, False)]) = next_word post (last_alloc (last_alloc True pre) [(S, True)])"
        using r2 by (simp add: e_def)
      show "last_alloc (last_alloc True pre) [(S, True)] \<or> next_alloc post" by simp
      fix lo hi assume "(lo, hi) \<in> {(a, a + 8), (e, e + 8)}"
      then show "a \<le> lo \<and> hi \<le> a + total [(S, False)] + 8" using S by (auto simp: e_def)
    qed
    have "node_set (first_block s2) (pre @ [(S, True)] @ post) = NS"
      unfolding node_set_append s2_def first_block_mem a[symmetric] NS by simp
    then have "heap_ok s2 (pre @ (S, True) # post)"
      using rep2 by (simp add: heap_ok_def)
    then show ?thesis using ex False by (simp add: s2_def)
  qed
qed

section \<open>The search of the free lists\<close>






section \<open>malloc keeps the invariant\<close>




lemma first_block_eq: "heap_lo s' = heap_lo s \<Longrightarrow> first_block s' = first_block s"
  by (simp add: first_block_def)


section \<open>free keeps the invariant\<close>






lemma incr8: "incr (wp x) 8 = wp (x + 8)"
  by (simp add: incr_def)




lemma heap_rep_block:
  assumes "heap_rep s (pre @ (S, al) # post) NS" "a = first_block s + total pre"
  shows "rd (mem s) a = hdr S (last_alloc True pre) al" "16 dvd S" "32 \<le> S"
    "al \<or> rd (mem s) (a + S - 8) = wp S" "last_alloc True pre \<or> al"
    "24 \<le> a" "a + S + 8 < 2 ^ 64"
    "rd (mem s) (a + S) = next_word post al" "16 dvd next_size post"
    "al \<or> next_alloc post"
proof -
  have rep': "heap_rep s (pre @ [(S, al)] @ post) NS" using assms by simp
  have bp: "blocks_ok (mem s) (first_block s) True pre"
    and tl: "tail_ok (mem s) (a + S) al post"
    and b: "rd (mem s) a = hdr S (last_alloc True pre) al" "16 dvd S" "32 \<le> S"
    "al \<or> rd (mem s) (a + S - 8) = wp S" "last_alloc True pre \<or> al"
    using rep'[unfolded heap_rep_split] by (auto simp: assms(2))
  show "rd (mem s) a = hdr S (last_alloc True pre) al" "16 dvd S" "32 \<le> S"
    "al \<or> rd (mem s) (a + S - 8) = wp S" "last_alloc True pre \<or> al" using b by auto
  have bq: "blocks_ok (mem s) (a + S) al post" using tl by (simp add: tail_ok_def)
  have tn: "0 \<le> total pre" "0 \<le> total post" using total_nonneg bp bq by blast+
  show "24 \<le> a" using first_block_range[of s] tn by (simp add: assms(2))
  show "a + S + 8 < 2 ^ 64"
    using heap_rep_range[OF assms(1)] tn by (simp add: assms(2) total_append)
  show "rd (mem s) (a + S) = next_word post al" using tail_next_word[OF tl] .
  show "16 dvd next_size post" using tail_next_dvd[OF tl] .
  show "al \<or> next_alloc post" using tail_false_next_alloc[of "mem s" "a + S" post] tl by (cases al) auto
qed






section \<open>Stores into a payload\<close>










section \<open>Coalescing\<close>







section \<open>The example heap\<close>

lemmas demo_rd = rd_def demo_heap_def demo_mem_def read64_write64_same read64_write64_disj read64_zero

lemma demo_first: "first_block demo_heap = 4120"
  by (simp add: first_block_def demo_heap_def)

lemma demo_nodes: "node_set 4120 demo_blocks = {(4176, 0), (4240, 2)}"
  by (auto simp: demo_blocks_def get_index_def)

lemma demo_blocks_ok: "blocks_ok demo_mem 4120 True demo_blocks"
  by (simp add: demo_blocks_def hdr_def demo_rd)

lemma demo_links: "links_ok demo_mem {(4176, 0), (4240, 2)}"
  by (simp add: links_ok_def pv_def nx_def node_prev_def node_next_def demo_rd)

lemma demo_head_list: "head demo_heap = [0x1050, 0, 0x1090] @ replicate 13 0"
  by (simp add: demo_heap_def numeral_eq_Suc)

lemma demo_heads: "heads_ok (head demo_heap) {(4176, 0), (4240, 2)}"
  unfolding heads_ok_def
proof (intro conjI allI impI)
  show "length (head demo_heap) = 16" by (simp add: demo_heap_def)
  fix i :: nat assume "i < 16"
  then have "i = 0 \<or> i = 1 \<or> i = 2 \<or> (\<exists>l. i = 3 + l \<and> l < 13)" by presburger
  then consider "i = 0" | "i = 1" | "i = 2" | l where "i = 3 + l" "l < 13" by blast
  then show "head demo_heap ! i = 0 \<or> (uint (head demo_heap ! i), int i) \<in> {(4176, 0), (4240, 2)}"
  proof cases
    case 4
    have "head demo_heap ! i = replicate 13 0 ! l"
      unfolding demo_head_list 4(1) by (simp add: nth_append)
    then show ?thesis using 4(2) by simp
  qed (simp_all add: demo_heap_def)
qed

lemma demo_heap_ok: "heap_ok demo_heap demo_blocks"
  unfolding heap_ok_def heap_rep_def demo_first demo_nodes
  using demo_blocks_ok demo_links demo_heads
  by (simp add: demo_heap_def demo_blocks_def hdr_def rd_def demo_mem_def
      read64_write64_same read64_write64_disj read64_zero)

lemma null_heads: "i < 16 \<Longrightarrow> [0, 0, 0, 0, 0, 0, 0, 0, 0, 0, 0, 0, 0, 0, 0, 0 :: ptr] ! i = 0"
proof -
  have "[0, 0, 0, 0, 0, 0, 0, 0, 0, 0, 0, 0, 0, 0, 0, 0 :: ptr] = replicate 16 0"
    by (simp add: numeral_eq_Suc)
  then show "i < 16 \<Longrightarrow> [0, 0, 0, 0, 0, 0, 0, 0, 0, 0, 0, 0, 0, 0, 0, 0 :: ptr] ! i = 0"
    by (simp only: nth_replicate)
qed

lemma init_heap_ok: "heap_ok (snd (mm_init (fresh_state 0x2000))) []"
  by (simp add: heap_ok_def heap_rep_def first_block_def links_ok_def heads_ok_def hdr_def
      rd_def fresh_state_def null_heads run_simps)

section \<open>The claims on extension, placement and coalescing\<close>

text \<open>
  The extender on the example heap, asked for 32 bytes: the old epilogue at \<open>0x10c8\<close>, whose
  prev-alloc bit is clear, becomes the header of the new block.
\<close>

theorem extend_writes_block_witness:
  "(32 :: size_t) AND 0xf = 0 \<and> (32 :: size_t) \<le> 32
   \<and> mm_sbrk demo_heap 32 = (0x10d0, demo_heap\<lparr>heap_brk := 0x10f0\<rparr>)
   \<and> (case extend demo_heap 32 of (r, s') \<Rightarrow>
        r = 0x10d0 \<and> heap_brk s' = 0x10f0 \<and> head s' = head demo_heap
        \<and> get_prev_alloc (mem demo_heap) 0x10c8 = 0
        \<and> get_size (mem s') 0x10c8 = 32 \<and> get_prev_alloc (mem s') 0x10c8 = 0
        \<and> is_alloc (mem s') 0x10c8 = 1 \<and> read64 (mem s') 0x10e8 = 3)"
proof -
  have a: "(32 :: size_t) AND 0xf = 0" by simp
  have b: "mm_sbrk demo_heap 32 = (0x10d0, demo_heap\<lparr>heap_brk := 0x10f0\<rparr>)"
    by (simp add: mm_sbrk_def demo_heap_def)
  have c: "get_prev_alloc (mem demo_heap) 0x10c8 = 0"
    by (simp add: get_prev_alloc_def demo_heap_def demo_mem_def read64_write64_same)
  show ?thesis
    using extend_writes_block[OF a _ b] a b c
    by (auto simp: mm_heap_hi_def demo_heap_def split: prod.splits)
qed

text \<open>
  C6. Placement in a free block of size \<open>S\<close> at address \<open>a\<close> of a heap that satisfies the
  invariant, once \<^verbatim>\<open>get_freeblock\<close> has taken the block's node off its list, for a request
  \<open>n\<close> (a multiple of 16, \<open>32 \<le> n \<le> S\<close>). \<^verbatim>\<open>allocate\<close> returns the payload \<open>a + 8\<close>; the header
  keeps its prev-alloc bit and has the alloc bit. If \<open>S - n \<ge> 32\<close> the header has size \<open>n\<close>
  and the word at \<open>a + n\<close> is the header of a free block of size \<open>S - n\<close> with the prev-alloc
  bit, whose footer at \<open>a + S - 8\<close> is \<open>S - n\<close> and whose node \<open>a + n + 8\<close> is in the ring of class
  \<open>get_index (S - n)\<close>, in front of its head (or is the head of a list that was empty).
  Otherwise the header has size \<open>S\<close> and the word that follows the block, at \<open>a + S\<close>, has
  the prev-alloc bit. In both cases the heap satisfies the invariant again, with the new
  sequence of blocks.
\<close>

theorem allocate_splits_or_consumes:
  assumes ok: "heap_ok s0 (pre @ (S, False) # post)" and a: "a = first_block s0 + total pre"
    and n: "16 dvd n" "32 \<le> n" "n \<le> S"
    and s: "s = removenode s0 (wp (a + 8)) (get_index (wp S))"
  shows "\<exists>s'. allocate s (wp a) (wp n) = (wp (a + 8), s')
     \<and> get_prev_alloc (mem s') (wp a) = get_prev_alloc (mem s) (wp a)
     \<and> is_alloc (mem s') (wp a) = 1
     \<and> (if 32 \<le> S - n then
           get_size (mem s') (wp a) = wp n
           \<and> get_size (mem s') (wp (a + n)) = wp (S - n)
           \<and> get_prev_alloc (mem s') (wp (a + n)) = 1
           \<and> is_alloc (mem s') (wp (a + n)) = 0
           \<and> read64 (mem s') (wp (a + S - 8)) = wp (S - n)
           \<and> head s' ! nat (get_index (wp (S - n))) \<noteq> 0
           \<and> (head s' ! nat (get_index (wp (S - n))) = wp (a + n + 8)
               \<or> node_prev (mem s') (head s' ! nat (get_index (wp (S - n)))) = wp (a + n + 8))
           \<and> heap_ok s' (pre @ (n, True) # (S - n, False) # post)
         else
           get_size (mem s') (wp a) = wp S
           \<and> get_prev_alloc (mem s') (wp (a + S)) = 1
           \<and> heap_ok s' (pre @ (S, True) # post))"
proof -
  define NS where "NS = node_set (first_block s0) (pre @ (S, False) # post)"
  define c where "c = get_index (wp S)"
  have rep0: "heap_rep s0 (pre @ (S, False) # post) NS" using ok by (simp add: heap_ok_def NS_def)
  have bl: "blocks_ok (mem s0) (first_block s0) True (pre @ (S, False) # post)"
    using rep0 by (simp add: heap_rep_def)
  have xin: "(a + 8, c) \<in> NS"
    using node_set_mid(1)[OF bl] by (simp add: NS_def a c_def)
  from removenode_heap[OF rep0 _ xin]
  have r1: "heap_rep s (pre @ (S, False) # post) (NS - {(a + 8, c)})" "heap_lo s = heap_lo s0"
    by (simp_all add: NS_def s c_def)
  have fb: "first_block s = first_block s0" using first_block_eq[OF r1(2)] .
  have a1: "a = first_block s + total pre" by (simp add: fb a)
  have "NS - {(a + 8, c)} = node_set (first_block s0) pre \<union> node_set (a + S) post"
    using node_set_mid(4)[OF bl] by (simp add: NS_def a c_def)
  then have ns: "NS - {(a + 8, c)} = node_set (first_block s) pre \<union> node_set (a + S) post"
    by (simp add: fb)
  note b = heap_rep_block[OF r1(1) a1]
  have S: "16 dvd S" "32 \<le> S" using b by simp_all
  have h0: "read64 (mem s) (wp a) = hdr S (last_alloc True pre) False"
    using b(1) by (simp add: rd_def)
  have p0: "get_prev_alloc (mem s) (wp a) = flag (last_alloc True pre)"
    using get_prev_alloc_hdr[OF S(1) h0] .
  from allocate_ok[OF r1(1) a1 ns n] obtain s' where
    al: "allocate s (wp a) (wp n) = (wp (a + 8), s')"
      "if 32 \<le> S - n
         then heap_ok s' (pre @ (n, True) # (S - n, False) # post)
              \<and> head s' ! nat (get_index (wp (S - n))) \<noteq> 0
              \<and> (head s' ! nat (get_index (wp (S - n))) = wp (a + n + 8)
                  \<or> node_prev (mem s') (head s' ! nat (get_index (wp (S - n)))) = wp (a + n + 8))
         else heap_ok s' (pre @ (S, True) # post)"
      "heap_lo s' = heap_lo s"
    by blast
  have fb': "first_block s' = first_block s0" using first_block_eq[OF al(3)] fb by simp
  have a': "a = first_block s' + total pre" by (simp add: fb' a)
  show ?thesis
  proof (cases "32 \<le> S - n")
    case True
    then have ok': "heap_ok s' (pre @ (n, True) # (S - n, False) # post)"
      and hd: "head s' ! nat (get_index (wp (S - n))) \<noteq> 0"
        "head s' ! nat (get_index (wp (S - n))) = wp (a + n + 8)
          \<or> node_prev (mem s') (head s' ! nat (get_index (wp (S - n)))) = wp (a + n + 8)"
      using al(2) by simp_all
    have rep1: "heap_rep s' (pre @ (n, True) # (S - n, False) # post)
        (node_set (first_block s') (pre @ (n, True) # (S - n, False) # post))"
      using ok' by (simp add: heap_ok_def)
    have rep2: "heap_rep s' ((pre @ [(n, True)]) @ (S - n, False) # post)
        (node_set (first_block s') (pre @ (n, True) # (S - n, False) # post))"
      using rep1 by simp
    have a2: "a + n = first_block s' + total (pre @ [(n, True)])" by (simp add: a' total_append)
    note b1 = heap_rep_block[OF rep1 a']
    note b2 = heap_rep_block[OF rep2 a2]
    have h1: "read64 (mem s') (wp a) = hdr n (last_alloc True pre) True"
      using b1(1) by (simp add: rd_def)
    have h2: "read64 (mem s') (wp (a + n)) = hdr (S - n) True False"
      using b2(1) by (simp add: rd_def last_alloc_append)
    have d2: "16 dvd S - n" using b2(2) .
    have ft: "read64 (mem s') (wp (a + S - 8)) = wp (S - n)"
      using b2(4) by (simp add: rd_def)
    have "get_size (mem s') (wp a) = wp n" using get_size_hdr[OF n(1) h1] .
    moreover have "get_prev_alloc (mem s') (wp a) = get_prev_alloc (mem s) (wp a)"
      using get_prev_alloc_hdr[OF n(1) h1] p0 by simp
    moreover have "is_alloc (mem s') (wp a) = 1"
      using is_alloc_hdr[OF n(1) h1] by (simp add: flag_def)
    moreover have "get_size (mem s') (wp (a + n)) = wp (S - n)" using get_size_hdr[OF d2 h2] .
    moreover have "get_prev_alloc (mem s') (wp (a + n)) = 1"
      using get_prev_alloc_hdr[OF d2 h2] by (simp add: flag_def)
    moreover have "is_alloc (mem s') (wp (a + n)) = 0"
      using is_alloc_hdr[OF d2 h2] by (simp add: flag_def)
    ultimately show ?thesis using al(1) ft hd ok' True
      by (intro exI[of _ s']) (simp del: of_int_add of_int_diff)
  next
    case False
    then have ok': "heap_ok s' (pre @ (S, True) # post)" using al(2) by simp
    have rep1: "heap_rep s' (pre @ (S, True) # post)
        (node_set (first_block s') (pre @ (S, True) # post))"
      using ok' by (simp add: heap_ok_def)
    note b1 = heap_rep_block[OF rep1 a']
    have h1: "read64 (mem s') (wp a) = hdr S (last_alloc True pre) True"
      using b1(1) by (simp add: rd_def)
    have h2: "read64 (mem s') (wp (a + S)) = hdr (next_size post) True (next_alloc post)"
      using b1(8) by (simp add: rd_def next_word_hdr)
    have "get_size (mem s') (wp a) = wp S" using get_size_hdr[OF S(1) h1] .
    moreover have "get_prev_alloc (mem s') (wp a) = get_prev_alloc (mem s) (wp a)"
      using get_prev_alloc_hdr[OF S(1) h1] p0 by simp
    moreover have "is_alloc (mem s') (wp a) = 1"
      using is_alloc_hdr[OF S(1) h1] by (simp add: flag_def)
    moreover have "get_prev_alloc (mem s') (wp (a + S)) = 1"
      using get_prev_alloc_hdr[OF b1(9) h2] by (simp add: flag_def)
    ultimately show ?thesis using al(1) ok' False
      by (intro exI[of _ s']) (simp del: of_int_add of_int_diff)
  qed
qed

text \<open>
  Placement of 32 bytes in the 64-byte free block at \<open>0x1088\<close> of the example heap: the
  block is split, and the rest, at \<open>0x10a8\<close>, joins the list of class 0.
\<close>

theorem allocate_splits_or_consumes_witness:
  "heap_ok demo_heap ([(48, True), (32, False), (32, True)] @ (64, False) # [])
   \<and> (\<exists>s'. allocate (removenode demo_heap 0x1090 2) 0x1088 32 = (0x1090, s')
        \<and> is_alloc (mem s') 0x1088 = 1 \<and> get_size (mem s') 0x1088 = 32
        \<and> get_size (mem s') 0x10a8 = 32 \<and> get_prev_alloc (mem s') 0x10a8 = 1
        \<and> is_alloc (mem s') 0x10a8 = 0 \<and> read64 (mem s') 0x10c0 = 32
        \<and> head s' ! 0 \<noteq> 0
        \<and> (head s' ! 0 = 0x10b0 \<or> node_prev (mem s') (head s' ! 0) = 0x10b0))"
proof -
  have ok: "heap_ok demo_heap ([(48, True), (32, False), (32, True)] @ (64, False) # [])"
    using demo_heap_ok by (simp add: demo_blocks_def)
  have a: "(4232 :: int) = first_block demo_heap + total [(48, True), (32, False), (32, True)]"
    by (simp add: demo_first)
  from allocate_splits_or_consumes[OF ok a, of 32 "removenode demo_heap 0x1090 2"]
  obtain s' where
    "allocate (removenode demo_heap 0x1090 2) 0x1088 32 = (0x1090, s')"
    "is_alloc (mem s') 0x1088 = 1" "get_size (mem s') 0x1088 = 32"
    "get_size (mem s') 0x10a8 = 32" "get_prev_alloc (mem s') 0x10a8 = 1"
    "is_alloc (mem s') 0x10a8 = 0" "read64 (mem s') 0x10c0 = 32"
    "head s' ! 0 \<noteq> 0" "head s' ! 0 = 0x10b0 \<or> node_prev (mem s') (head s' ! 0) = 0x10b0"
    by (auto simp: get_index_def)
  then show ?thesis using ok by blast
qed





end
